theory Spec2Isabelle
  imports Main "HOL-Library.Word" "HOL-Library.AList"
begin

section \<open>The memory zone of zone.c\<close>

text \<open>
  A shallow embedding of \<^verbatim>\<open>src/zone.c\<close>: the chunk list that backs bump allocation,
  the finalizer array, and the zone that owns both.

  Memory is modelled by blocks. A pointer returned by \<^verbatim>\<open>malloc\<close> or \<^verbatim>\<open>realloc\<close> is the
  identity of a block, a natural number, with 0 for the null pointer; a pointer into a
  block is the pair of the block and an offset (bytes for \<^verbatim>\<open>char*\<close>, elements for
  \<^verbatim>\<open>msgpack_zone_finalizer*\<close>). The heap lists the live blocks with their contents; a
  block that has been released is no longer listed, so that reading or writing it is
  a failure of the model and not a value. What the allocator answers is a parameter of
  every function that allocates: the block it returns, 0 when it fails.

  \<^verbatim>\<open>size_t\<close> is a 64-bit word and the sizes of the three structures are those of the
  LP64 data model (\<^verbatim>\<open>msgpack/zone.h\<close>, which declares them, has pointers and
  \<^verbatim>\<open>size_t\<close> fields only).
\<close>

type_synonym block = nat
type_synonym pointer = "block \<times> nat"
type_synonym size_t = "64 word"

definition NULL :: pointer where
  "NULL = (0, 0)"

definition sizeof_chunk :: size_t where
  "sizeof_chunk = 8"

definition sizeof_finalizer :: size_t where
  "sizeof_finalizer = 16"

definition sizeof_zone :: size_t where
  "sizeof_zone = 56"

text \<open>
  What stops a run short of returning: a loop that never ends, and the undefined
  behaviours of C that the code can reach.
\<close>

datatype failure =
    NonTermination
  | NullDereference
  | InvalidAccess
  | BufferOverflow
  | UninitialisedRead
  | InvalidFree

subsection \<open>Data\<close>

text \<open>
  \<^verbatim>\<open>struct msgpack_zone_chunk\<close> has the one field \<^verbatim>\<open>next\<close>, followed by the data bytes.
  \<open>capacity\<close> is not a field: it is the number of data bytes that follow the header in
  the block that \<^verbatim>\<open>malloc\<close> gave.
\<close>

record msgpack_zone_chunk =
  next' :: block
  capacity :: nat

record msgpack_zone_chunk_list =
  free :: size_t
  ptr :: pointer
  head :: block

record msgpack_zone_finalizer =
  func :: nat
  data :: nat

record msgpack_zone_finalizer_array =
  tail :: pointer
  end' :: pointer
  array :: pointer

record msgpack_zone =
  chunk_list :: msgpack_zone_chunk_list
  finalizer_array :: msgpack_zone_finalizer_array
  chunk_size :: size_t

text \<open>
  The live blocks, by what they hold. A slot of a finalizer array is \<open>None\<close> until it
  has been written.
\<close>

record heap =
  chunks :: "(block \<times> msgpack_zone_chunk) list"
  arrays :: "(block \<times> msgpack_zone_finalizer option list) list"
  zones :: "(block \<times> msgpack_zone) list"

subsection \<open>Memory accesses\<close>

definition load_chunk :: "heap \<Rightarrow> block \<Rightarrow> failure + msgpack_zone_chunk" where
  "load_chunk h c =
     (if c = 0 then Inl NullDereference
      else case map_of (chunks h) c of
             None \<Rightarrow> Inl InvalidAccess
           | Some ck \<Rightarrow> Inr ck)"

definition store_next :: "heap \<Rightarrow> block \<Rightarrow> block \<Rightarrow> failure + heap" where
  "store_next h c n =
     (case load_chunk h c of
        Inl e \<Rightarrow> Inl e
      | Inr ck \<Rightarrow> Inr (h\<lparr>chunks := AList.update c (ck\<lparr>next' := n\<rparr>) (chunks h)\<rparr>))"

text \<open>
  \<open>alloc_chunk h m n nx\<close>: the block \<open>m\<close> that \<^verbatim>\<open>malloc(n)\<close> returned receives its first
  write, \<^verbatim>\<open>chunk->next = nx\<close>. The write needs a block, and one that holds the header.
\<close>

definition alloc_chunk :: "heap \<Rightarrow> block \<Rightarrow> size_t \<Rightarrow> block \<Rightarrow> failure + heap" where
  "alloc_chunk h m n nx =
     (if m = 0 then Inl NullDereference
      else if n < sizeof_chunk then Inl BufferOverflow
      else Inr (h\<lparr>chunks :=
             (m, \<lparr>next' = nx, capacity = unat n - unat sizeof_chunk\<rparr>) # chunks h\<rparr>))"

definition free_chunk :: "heap \<Rightarrow> block \<Rightarrow> failure + heap" where
  "free_chunk h c =
     (if c = 0 then Inr h
      else case map_of (chunks h) c of
             None \<Rightarrow> Inl InvalidFree
           | Some ck \<Rightarrow> Inr (h\<lparr>chunks := AList.delete c (chunks h)\<rparr>))"

subsection \<open>The chunk list\<close>

definition init_chunk_list ::
  "heap \<Rightarrow> block \<Rightarrow> size_t \<Rightarrow> failure + (heap \<times> msgpack_zone_chunk_list) option" where
  "init_chunk_list h m chunk_size' =
     (if m = 0 then Inr None
      else case alloc_chunk h m (sizeof_chunk + chunk_size') 0 of
             Inl e \<Rightarrow> Inl e
           | Inr h' \<Rightarrow>
               Inr (Some (h', \<lparr>free = chunk_size', ptr = (m, unat sizeof_chunk), head = m\<rparr>)))"

function destroy_chunk_list_loop :: "heap \<Rightarrow> block \<Rightarrow> failure + heap" where
  "destroy_chunk_list_loop h c =
     (case load_chunk h c of
        Inl e \<Rightarrow> Inl e
      | Inr ck \<Rightarrow>
          (case free_chunk h c of
             Inl e \<Rightarrow> Inl e
           | Inr h' \<Rightarrow>
               if next' ck \<noteq> 0 then destroy_chunk_list_loop h' (next' ck) else Inr h'))"
  by pat_completeness auto
termination
proof (relation "measure (\<lambda>(h, c). length (chunks h))")
  show "wf (measure (\<lambda>(h, c). length (chunks h)))"
    by simp
next
  fix h :: heap and c ck h'
  assume l: "load_chunk h c = Inr ck" and f: "free_chunk h c = Inr h'"
  from l have live: "map_of (chunks h) c = Some ck" and nz: "c \<noteq> 0"
    by (auto simp: load_chunk_def split: if_splits option.splits)
  have less: "length (AList.delete c xs) < length xs" if "map_of xs c = Some v"
    for xs :: "(block \<times> msgpack_zone_chunk) list" and v
    using that by (induction xs) (auto simp: le_imp_less_Suc AList.length_delete_le split: if_splits)
  from f live nz have "chunks h' = AList.delete c (chunks h)"
    by (auto simp: free_chunk_def)
  with less [OF live] show "((h', next' ck), (h, c)) \<in> measure (\<lambda>(h, c). length (chunks h))"
    by simp
qed

definition destroy_chunk_list :: "heap \<Rightarrow> msgpack_zone_chunk_list \<Rightarrow> failure + heap" where
  "destroy_chunk_list h cl = destroy_chunk_list_loop h (head cl)"

text \<open>
  The loop of \<^verbatim>\<open>clear_chunk_list\<close> returns the heap and its local variable \<^verbatim>\<open>c\<close>, the
  chunk it stopped at. The statements after the loop go through \<^verbatim>\<open>cl->head\<close>.
\<close>

function clear_chunk_list_loop :: "heap \<Rightarrow> block \<Rightarrow> failure + (heap \<times> block)" where
  "clear_chunk_list_loop h c =
     (case load_chunk h c of
        Inl e \<Rightarrow> Inl e
      | Inr ck \<Rightarrow>
          if next' ck \<noteq> 0 then
            (case free_chunk h c of
               Inl e \<Rightarrow> Inl e
             | Inr h' \<Rightarrow> clear_chunk_list_loop h' (next' ck))
          else Inr (h, c))"
  by pat_completeness auto
termination
proof (relation "measure (\<lambda>(h, c). length (chunks h))")
  show "wf (measure (\<lambda>(h, c). length (chunks h)))"
    by simp
next
  fix h :: heap and c ck h'
  assume l: "load_chunk h c = Inr ck" and f: "free_chunk h c = Inr h'"
  from l have live: "map_of (chunks h) c = Some ck" and nz: "c \<noteq> 0"
    by (auto simp: load_chunk_def split: if_splits option.splits)
  have less: "length (AList.delete c xs) < length xs" if "map_of xs c = Some v"
    for xs :: "(block \<times> msgpack_zone_chunk) list" and v
    using that by (induction xs) (auto simp: le_imp_less_Suc AList.length_delete_le split: if_splits)
  from f live nz have "chunks h' = AList.delete c (chunks h)"
    by (auto simp: free_chunk_def)
  with less [OF live] show "((h', next' ck), (h, c)) \<in> measure (\<lambda>(h, c). length (chunks h))"
    by simp
qed

definition clear_chunk_list ::
  "heap \<Rightarrow> msgpack_zone_chunk_list \<Rightarrow> size_t \<Rightarrow> failure + (heap \<times> msgpack_zone_chunk_list)" where
  "clear_chunk_list h cl chunk_size' =
     (case clear_chunk_list_loop h (head cl) of
        Inl e \<Rightarrow> Inl e
      | Inr (h', c) \<Rightarrow>
          (case store_next h' (head cl) 0 of
             Inl e \<Rightarrow> Inl e
           | Inr h'' \<Rightarrow>
               Inr (h'', \<lparr>free = chunk_size',
                          ptr = (head cl, unat sizeof_chunk),
                          head = head cl\<rparr>)))"

text \<open>
  The loop \<^verbatim>\<open>while(sz < size) { sz *= 2; }\<close> on \<^verbatim>\<open>size_t\<close>: the multiplication wraps
  around, and \<open>None\<close> is the loop that never ends.
\<close>

partial_function (option) expand_size :: "size_t \<Rightarrow> size_t \<Rightarrow> size_t option" where
  "expand_size sz size' = (if sz < size' then expand_size (sz * 2) size' else Some sz)"

definition msgpack_zone_malloc_expand ::
  "heap \<Rightarrow> block \<Rightarrow> msgpack_zone \<Rightarrow> size_t \<Rightarrow> failure + (pointer \<times> heap \<times> msgpack_zone)" where
  "msgpack_zone_malloc_expand h m zone size' =
     (let cl = chunk_list zone in
      case expand_size (chunk_size zone) size' of
        None \<Rightarrow> Inl NonTermination
      | Some sz \<Rightarrow>
          (case alloc_chunk h m (sizeof_chunk + sz) (head cl) of
             Inl e \<Rightarrow> Inl e
           | Inr h' \<Rightarrow>
               Inr ((m, unat sizeof_chunk), h',
                    zone\<lparr>chunk_list :=
                      \<lparr>free = sz - size',
                       ptr = (m, unat sizeof_chunk + unat size'),
                       head = m\<rparr>\<rparr>)))"

subsection \<open>The finalizer array\<close>

text \<open>
  \<^verbatim>\<open>realloc(p, n)\<close> with the answer \<open>r\<close> of the allocator. \<open>p\<close> must be null or a live
  block; when \<open>r\<close> is null nothing changes; otherwise the block \<open>r\<close> has room for
  \<open>n div sizeof_finalizer\<close> slots, the old slots copied and the others not yet written.
\<close>

definition realloc_array :: "heap \<Rightarrow> pointer \<Rightarrow> size_t \<Rightarrow> block \<Rightarrow> failure + heap" where
  "realloc_array h p n r =
     (let slots = unat n div unat sizeof_finalizer in
      if p = NULL then
        (if r = 0 then Inr h
         else Inr (h\<lparr>arrays := (r, replicate slots None) # arrays h\<rparr>))
      else if snd p \<noteq> 0 then Inl InvalidFree
      else case map_of (arrays h) (fst p) of
             None \<Rightarrow> Inl InvalidFree
           | Some st \<Rightarrow>
               if r = 0 then Inr h
               else Inr (h\<lparr>arrays :=
                      (r, take slots (st @ replicate slots None))
                        # AList.delete (fst p) (arrays h)\<rparr>))"

definition free_array :: "heap \<Rightarrow> pointer \<Rightarrow> failure + heap" where
  "free_array h p =
     (if p = NULL then Inr h
      else if snd p \<noteq> 0 then Inl InvalidFree
      else case map_of (arrays h) (fst p) of
             None \<Rightarrow> Inl InvalidFree
           | Some st \<Rightarrow> Inr (h\<lparr>arrays := AList.delete (fst p) (arrays h)\<rparr>))"

definition load_finalizer :: "heap \<Rightarrow> pointer \<Rightarrow> failure + msgpack_zone_finalizer" where
  "load_finalizer h p =
     (if fst p = 0 then Inl NullDereference
      else case map_of (arrays h) (fst p) of
             None \<Rightarrow> Inl InvalidAccess
           | Some st \<Rightarrow>
               if snd p < length st then
                 (case st ! snd p of
                    None \<Rightarrow> Inl UninitialisedRead
                  | Some f \<Rightarrow> Inr f)
               else Inl BufferOverflow)"

definition store_finalizer ::
  "heap \<Rightarrow> pointer \<Rightarrow> msgpack_zone_finalizer \<Rightarrow> failure + heap" where
  "store_finalizer h p f =
     (if fst p = 0 then Inl NullDereference
      else case map_of (arrays h) (fst p) of
             None \<Rightarrow> Inl InvalidAccess
           | Some st \<Rightarrow>
               if snd p < length st then
                 Inr (h\<lparr>arrays := AList.update (fst p) (st[snd p := Some f]) (arrays h)\<rparr>)
               else Inl BufferOverflow)"

definition init_finalizer_array :: msgpack_zone_finalizer_array where
  "init_finalizer_array = \<lparr>tail = NULL, end' = NULL, array = NULL\<rparr>"

text \<open>
  A finalizer is foreign code: calling it is recorded, as the pair of the function and
  its argument, in the order of the calls. The loop of \<^verbatim>\<open>call_finalizer_array\<close> goes
  down from \<^verbatim>\<open>fa->tail\<close>, here the element \<open>i\<close> of the block \<open>b\<close>, until it meets
  \<^verbatim>\<open>fa->array\<close>; it returns the calls made and the failure that stopped it, if any.
\<close>

fun call_finalizer_array_loop ::
  "heap \<Rightarrow> pointer \<Rightarrow> block \<Rightarrow> nat \<Rightarrow> msgpack_zone_finalizer list \<times> failure option" where
  "call_finalizer_array_loop h a b 0 =
     (if (b, 0) \<noteq> a then ([], Some BufferOverflow) else ([], None))"
| "call_finalizer_array_loop h a b (Suc i) =
     (if (b, Suc i) \<noteq> a then
        (case load_finalizer h (b, i) of
           Inl e \<Rightarrow> ([], Some e)
         | Inr f \<Rightarrow>
             (let (calls, r) = call_finalizer_array_loop h a b i in (f # calls, r)))
      else ([], None))"

definition call_finalizer_array ::
  "heap \<Rightarrow> msgpack_zone_finalizer_array \<Rightarrow> msgpack_zone_finalizer list \<times> failure option" where
  "call_finalizer_array h fa =
     call_finalizer_array_loop h (array fa) (fst (tail fa)) (snd (tail fa))"

definition destroy_finalizer_array ::
  "heap \<Rightarrow> msgpack_zone_finalizer_array \<Rightarrow> msgpack_zone_finalizer list \<times> (failure + heap)" where
  "destroy_finalizer_array h fa =
     (case call_finalizer_array h fa of
        (calls, Some e) \<Rightarrow> (calls, Inl e)
      | (calls, None) \<Rightarrow> (calls, free_array h (array fa)))"

definition clear_finalizer_array ::
  "heap \<Rightarrow> msgpack_zone_finalizer_array
     \<Rightarrow> msgpack_zone_finalizer list \<times> (failure + msgpack_zone_finalizer_array)" where
  "clear_finalizer_array h fa =
     (case call_finalizer_array h fa of
        (calls, Some e) \<Rightarrow> (calls, Inl e)
      | (calls, None) \<Rightarrow> (calls, Inr (fa\<lparr>tail := array fa\<rparr>)))"

text \<open>
  \<^verbatim>\<open>fa->end - fa->array\<close> is the difference of the two offsets, read as a \<^verbatim>\<open>size_t\<close>.
  The result is the returned \<^verbatim>\<open>int\<close> as a truth value, with the heap and the zone as
  the call leaves them.
\<close>

definition msgpack_zone_push_finalizer_expand ::
  "heap \<Rightarrow> block \<Rightarrow> msgpack_zone \<Rightarrow> nat \<Rightarrow> nat \<Rightarrow> failure + (bool \<times> heap \<times> msgpack_zone)" where
  "msgpack_zone_push_finalizer_expand h r zone func' data' =
     (let fa = finalizer_array zone;
          nused = (of_nat (snd (end' fa)) - of_nat (snd (array fa)) :: size_t);
          nnext = (if nused = 0
                   then (if sizeof_finalizer < 72 div 2 then 72 div sizeof_finalizer else 8)
                   else nused * 2)
      in case realloc_array h (array fa) (sizeof_finalizer * nnext) r of
           Inl e \<Rightarrow> Inl e
         | Inr h' \<Rightarrow>
             if r = 0 then Inr (False, h', zone)
             else (case store_finalizer h' (r, unat nused) \<lparr>func = func', data = data'\<rparr> of
                     Inl e \<Rightarrow> Inl e
                   | Inr h'' \<Rightarrow>
                       Inr (True, h'',
                            zone\<lparr>finalizer_array :=
                              \<lparr>tail = (r, unat nused + 1),
                               end' = (r, unat nnext),
                               array = (r, 0)\<rparr>\<rparr>)))"

subsection \<open>The zone\<close>

text \<open>
  The truth value of \<^verbatim>\<open>msgpack_zone_is_empty\<close>; \<^verbatim>\<open>&&\<close> reads \<^verbatim>\<open>cl->head->next\<close> only
  when the first comparison holds.
\<close>

definition msgpack_zone_is_empty :: "heap \<Rightarrow> msgpack_zone \<Rightarrow> failure + bool" where
  "msgpack_zone_is_empty h zone =
     (let cl = chunk_list zone; fa = finalizer_array zone in
      if free cl = chunk_size zone then
        (case load_chunk h (head cl) of
           Inl e \<Rightarrow> Inl e
         | Inr ck \<Rightarrow> Inr (next' ck = 0 \<and> tail fa = array fa))
      else Inr False)"

definition msgpack_zone_destroy ::
  "heap \<Rightarrow> msgpack_zone \<Rightarrow> msgpack_zone_finalizer list \<times> (failure + heap)" where
  "msgpack_zone_destroy h zone =
     (case destroy_finalizer_array h (finalizer_array zone) of
        (calls, Inl e) \<Rightarrow> (calls, Inl e)
      | (calls, Inr h') \<Rightarrow> (calls, destroy_chunk_list h' (chunk_list zone)))"

definition msgpack_zone_clear ::
  "heap \<Rightarrow> msgpack_zone \<Rightarrow> msgpack_zone_finalizer list \<times> (failure + heap \<times> msgpack_zone)" where
  "msgpack_zone_clear h zone =
     (case clear_finalizer_array h (finalizer_array zone) of
        (calls, Inl e) \<Rightarrow> (calls, Inl e)
      | (calls, Inr fa') \<Rightarrow>
          (case clear_chunk_list h (chunk_list zone) (chunk_size zone) of
             Inl e \<Rightarrow> (calls, Inl e)
           | Inr (h', cl') \<Rightarrow>
               (calls, Inr (h', zone\<lparr>chunk_list := cl', finalizer_array := fa'\<rparr>))))"

text \<open>
  \<^verbatim>\<open>msgpack_zone_init\<close> fills the caller's zone: \<open>None\<close> is the return value 0, with the
  zone not to be used. \<open>m\<close> is the answer of \<^verbatim>\<open>malloc\<close> for the first chunk.
\<close>

definition msgpack_zone_init ::
  "heap \<Rightarrow> block \<Rightarrow> size_t \<Rightarrow> failure + (heap \<times> msgpack_zone) option" where
  "msgpack_zone_init h m chunk_size' =
     (case init_chunk_list h m chunk_size' of
        Inl e \<Rightarrow> Inl e
      | Inr None \<Rightarrow> Inr None
      | Inr (Some (h', cl)) \<Rightarrow>
          Inr (Some (h', \<lparr>chunk_list = cl,
                          finalizer_array = init_finalizer_array,
                          chunk_size = chunk_size'\<rparr>)))"

text \<open>
  \<^verbatim>\<open>msgpack_zone_new\<close> returns the pointer to the zone, 0 for null. \<open>mz\<close> and \<open>mc\<close> are
  the answers of \<^verbatim>\<open>malloc\<close> for the zone and for its first chunk.
\<close>

definition msgpack_zone_new ::
  "heap \<Rightarrow> block \<Rightarrow> block \<Rightarrow> size_t \<Rightarrow> failure + (block \<times> heap)" where
  "msgpack_zone_new h mz mc chunk_size' =
     (if mz = 0 then Inr (0, h)
      else if sizeof_zone + chunk_size' < sizeof_zone then Inl BufferOverflow
      else case init_chunk_list h mc chunk_size' of
             Inl e \<Rightarrow> Inl e
           | Inr None \<Rightarrow> Inr (0, h)
           | Inr (Some (h', cl)) \<Rightarrow>
               Inr (mz, h'\<lparr>zones :=
                      (mz, \<lparr>chunk_list = cl,
                            finalizer_array = init_finalizer_array,
                            chunk_size = chunk_size'\<rparr>) # zones h'\<rparr>))"

definition msgpack_zone_free ::
  "heap \<Rightarrow> block \<Rightarrow> msgpack_zone_finalizer list \<times> (failure + heap)" where
  "msgpack_zone_free h zone =
     (if zone = 0 then ([], Inr h)
      else case map_of (zones h) zone of
             None \<Rightarrow> ([], Inl InvalidAccess)
           | Some z \<Rightarrow>
               (case msgpack_zone_destroy h z of
                  (calls, Inl e) \<Rightarrow> (calls, Inl e)
                | (calls, Inr h') \<Rightarrow>
                    (calls, Inr (h'\<lparr>zones := AList.delete zone (zones h')\<rparr>))))"

subsection \<open>The inline front ends\<close>

text \<open>
  Modelled from the spec: \<^verbatim>\<open>msgpack_zone_malloc\<close>, the inline function of
  \<^verbatim>\<open>msgpack/zone.h\<close> that \<^verbatim>\<open>msgpack_zone_malloc_expand\<close> is the slow path of; the header
  is not part of \<^verbatim>\<open>zone.c\<close>. The spec: if \<open>size \<le> free\<close>, return the cursor, advance the
  cursor by \<open>size\<close> and take \<open>size\<close> from \<open>free\<close>; the slow path is used when
  \<open>size > free\<close>.
\<close>

definition msgpack_zone_malloc ::
  "heap \<Rightarrow> block \<Rightarrow> msgpack_zone \<Rightarrow> size_t \<Rightarrow> failure + (pointer \<times> heap \<times> msgpack_zone)" where
  "msgpack_zone_malloc h m zone size' =
     (let cl = chunk_list zone in
      if size' \<le> free cl then
        Inr (ptr cl, h,
             zone\<lparr>chunk_list :=
               cl\<lparr>free := free cl - size',
                  ptr := (fst (ptr cl), snd (ptr cl) + unat size')\<rparr>\<rparr>)
      else msgpack_zone_malloc_expand h m zone size')"

text \<open>
  Modelled from the spec: \<^verbatim>\<open>msgpack_zone_push_finalizer\<close>, the inline function of
  \<^verbatim>\<open>msgpack/zone.h\<close> that \<^verbatim>\<open>msgpack_zone_push_finalizer_expand\<close> is the slow path of.
  The spec: if \<open>length = capacity\<close>, grow; otherwise write the new entry at index
  \<open>length\<close> and increment \<open>length\<close>.
\<close>

definition msgpack_zone_push_finalizer ::
  "heap \<Rightarrow> block \<Rightarrow> msgpack_zone \<Rightarrow> nat \<Rightarrow> nat \<Rightarrow> failure + (bool \<times> heap \<times> msgpack_zone)" where
  "msgpack_zone_push_finalizer h r zone func' data' =
     (let fa = finalizer_array zone in
      if tail fa = end' fa then msgpack_zone_push_finalizer_expand h r zone func' data'
      else (case store_finalizer h (tail fa) \<lparr>func = func', data = data'\<rparr> of
              Inl e \<Rightarrow> Inl e
            | Inr h' \<Rightarrow>
                Inr (True, h',
                     zone\<lparr>finalizer_array :=
                       fa\<lparr>tail := (fst (tail fa), snd (tail fa) + 1)\<rparr>\<rparr>)))"

subsection \<open>Zones to run the code on\<close>

definition empty_heap :: heap where
  "empty_heap = \<lparr>chunks = [], arrays = [], zones = []\<rparr>"

text \<open>The zone that \<^verbatim>\<open>msgpack_zone_init(&zone, 64)\<close> makes, its chunk being block 1.\<close>

definition heap_one_chunk :: heap where
  "heap_one_chunk = \<lparr>chunks = [(1, \<lparr>next' = 0, capacity = 64\<rparr>)], arrays = [], zones = []\<rparr>"

definition zone_one_chunk :: msgpack_zone where
  "zone_one_chunk =
     \<lparr>chunk_list = \<lparr>free = 64, ptr = (1, 8), head = 1\<rparr>,
      finalizer_array = \<lparr>tail = NULL, end' = NULL, array = NULL\<rparr>,
      chunk_size = 64\<rparr>"

text \<open>
  The same zone after a request of 100 bytes has gone through the slow path, the new
  chunk being block 2.
\<close>

definition heap_two_chunks :: heap where
  "heap_two_chunks =
     \<lparr>chunks = [(2, \<lparr>next' = 1, capacity = 128\<rparr>), (1, \<lparr>next' = 0, capacity = 64\<rparr>)],
      arrays = [], zones = []\<rparr>"

definition zone_two_chunks :: msgpack_zone where
  "zone_two_chunks =
     \<lparr>chunk_list = \<lparr>free = 28, ptr = (2, 108), head = 2\<rparr>,
      finalizer_array = \<lparr>tail = NULL, end' = NULL, array = NULL\<rparr>,
      chunk_size = 64\<rparr>"

text \<open>
  The zone of one chunk after the finalizer \<open>(7, 9)\<close> has been registered, the array
  being block 3; and the same zone with its array of four slots full.
\<close>

definition heap_one_finalizer :: heap where
  "heap_one_finalizer =
     \<lparr>chunks = [(1, \<lparr>next' = 0, capacity = 64\<rparr>)],
      arrays = [(3, [Some \<lparr>func = 7, data = 9\<rparr>, None, None, None])],
      zones = []\<rparr>"

definition zone_one_finalizer :: msgpack_zone where
  "zone_one_finalizer =
     \<lparr>chunk_list = \<lparr>free = 64, ptr = (1, 8), head = 1\<rparr>,
      finalizer_array = \<lparr>tail = (3, 1), end' = (3, 4), array = (3, 0)\<rparr>,
      chunk_size = 64\<rparr>"

definition four_finalizers :: "msgpack_zone_finalizer list" where
  "four_finalizers =
     [\<lparr>func = 7, data = 9\<rparr>, \<lparr>func = 7, data = 10\<rparr>,
      \<lparr>func = 8, data = 11\<rparr>, \<lparr>func = 8, data = 12\<rparr>]"

definition heap_full_array :: heap where
  "heap_full_array =
     \<lparr>chunks = [(1, \<lparr>next' = 0, capacity = 64\<rparr>)],
      arrays = [(3, map Some four_finalizers)],
      zones = []\<rparr>"

definition zone_full_array :: msgpack_zone where
  "zone_full_array =
     \<lparr>chunk_list = \<lparr>free = 64, ptr = (1, 8), head = 1\<rparr>,
      finalizer_array = \<lparr>tail = (3, 4), end' = (3, 4), array = (3, 0)\<rparr>,
      chunk_size = 64\<rparr>"

subsection \<open>States in order\<close>

text \<open>
  \<open>holds_finalizers h fa es\<close>: the finalizer array \<open>fa\<close> is in order and holds the entries
  \<open>es\<close>, in the order of their registration. Its three pointers are null with nothing
  registered, or point into one live block: \<open>array\<close> at its start, \<open>end\<close> behind its last
  slot, \<open>tail\<close> behind the last entry, the slots below \<open>tail\<close> holding \<open>es\<close>.
\<close>

definition holds_finalizers ::
  "heap \<Rightarrow> msgpack_zone_finalizer_array \<Rightarrow> msgpack_zone_finalizer list \<Rightarrow> bool" where
  "holds_finalizers h fa es =
     (snd (array fa) = 0 \<and> tail fa = (fst (array fa), length es) \<and>
      (if fst (array fa) = 0 then es = [] \<and> end' fa = NULL
       else case map_of (arrays h) (fst (array fa)) of
              None \<Rightarrow> False
            | Some st \<Rightarrow>
                end' fa = (fst (array fa), length st) \<and> length st < 2 ^ 64 \<and>
                length es \<le> length st \<and> take (length es) st = map Some es))"

text \<open>
  A run of registrations that all succeed: each element is the answer of the allocator,
  should the array have to grow, and the finalizer to register. \<open>None\<close> when a call
  fails or returns 0.
\<close>

fun push_all ::
  "heap \<Rightarrow> msgpack_zone \<Rightarrow> (block \<times> msgpack_zone_finalizer) list
     \<Rightarrow> (heap \<times> msgpack_zone) option" where
  "push_all h zone [] = Some (h, zone)"
| "push_all h zone ((r, f) # rest) =
     (case msgpack_zone_push_finalizer h r zone (func f) (data f) of
        Inr (True, h', zone') \<Rightarrow> push_all h' zone' rest
      | _ \<Rightarrow> None)"

text \<open>
  The invariant of the chunk list, in the spec's words: \<open>free\<close> is the number of bytes
  from the cursor to the end of the head chunk, and the cursor lies in the data of the
  head chunk or at its end.
\<close>

definition chunk_list_inv :: "heap \<Rightarrow> msgpack_zone_chunk_list \<Rightarrow> bool" where
  "chunk_list_inv h cl =
     (case load_chunk h (head cl) of
        Inl e \<Rightarrow> False
      | Inr ck \<Rightarrow>
          fst (ptr cl) = head cl \<and> unat sizeof_chunk \<le> snd (ptr cl) \<and>
          snd (ptr cl) \<le> unat sizeof_chunk + capacity ck \<and>
          unat (free cl) = unat sizeof_chunk + capacity ck - snd (ptr cl))"

section \<open>Running the code\<close>

lemmas zone_defs = empty_heap_def heap_one_chunk_def zone_one_chunk_def heap_two_chunks_def
  zone_two_chunks_def heap_one_finalizer_def zone_one_finalizer_def four_finalizers_def
  heap_full_array_def zone_full_array_def

lemmas run_defs = msgpack_zone_init_def msgpack_zone_new_def init_chunk_list_def
  alloc_chunk_def sizeof_chunk_def sizeof_zone_def init_finalizer_array_def
  msgpack_zone_malloc_expand_def clear_chunk_list_def load_chunk_def free_chunk_def
  store_next_def msgpack_zone_push_finalizer_def msgpack_zone_push_finalizer_expand_def
  realloc_array_def store_finalizer_def load_finalizer_def sizeof_finalizer_def NULL_def
  Let_def msgpack_zone_clear_def clear_finalizer_array_def call_finalizer_array_def
  msgpack_zone_destroy_def destroy_finalizer_array_def free_array_def destroy_chunk_list_def
  msgpack_zone_is_empty_def msgpack_zone_malloc_def holds_finalizers_def chunk_list_inv_def

lemma replicate_4: "replicate 4 x = [x, x, x, x]"
  by (simp add: numeral_eq_Suc)

lemma replicate_8: "replicate 8 x = [x, x, x, x, x, x, x, x]"
  by (simp add: numeral_eq_Suc)

section \<open>The size of a new chunk\<close>

lemma expand_size_zero: "0 < n \<Longrightarrow> expand_size 0 n = None"
proof (rule ccontr)
  assume n: "0 < n" and "expand_size 0 n \<noteq> None"
  then obtain y where y: "expand_size 0 n = Some y" by auto
  have "\<not> (sz = 0 \<and> 0 < m)" if "expand_size sz m = Some z" for sz m z
    by (rule expand_size.raw_induct [where P = "\<lambda>sz m z. \<not> (sz = 0 \<and> 0 < m)", OF _ that])
       (auto split: if_splits)
  with y n show False by blast
qed

text \<open>
  As long as the doublings stay below \<open>2 ^ 64\<close> the loop follows them, and it stops at
  the first one that covers the request.
\<close>

lemma expand_size_reaches:
  "unat sz * 2 ^ k < 2 ^ 64 \<Longrightarrow> unat n \<le> unat sz * 2 ^ k \<Longrightarrow>
   \<exists>j\<le>k. expand_size sz n = Some (sz * 2 ^ j) \<and> unat (sz * 2 ^ j) = unat sz * 2 ^ j
          \<and> n \<le> sz * 2 ^ j \<and> (\<forall>i<j. sz * 2 ^ i < n)"
proof (induction k arbitrary: sz)
  case 0
  then have "\<not> sz < n" by (simp add: word_less_nat_alt)
  then have "expand_size sz n = Some sz" by (simp add: expand_size.simps)
  with \<open>\<not> sz < n\<close> show ?case by simp
next
  case (Suc k)
  show ?case
  proof (cases "sz < n")
    case False
    then have "expand_size sz n = Some sz" by (simp add: expand_size.simps)
    with False show ?thesis by (intro exI [of _ 0]) simp
  next
    case True
    have "unat sz * 2 \<le> unat sz * 2 ^ Suc k" by simp
    with Suc.prems(1) have lt: "unat sz * 2 < 2 ^ 64" by linarith
    then have u: "unat (sz * 2) = unat sz * 2"
      by (simp add: unat_word_ariths)
    from Suc.prems u have "unat (sz * 2) * 2 ^ k < 2 ^ 64" "unat n \<le> unat (sz * 2) * 2 ^ k"
      by (simp_all add: mult.assoc)
    from Suc.IH [OF this] obtain j where j: "j \<le> k"
      "expand_size (sz * 2) n = Some (sz * 2 * 2 ^ j)"
      "unat (sz * 2 * 2 ^ j) = unat (sz * 2) * 2 ^ j"
      "n \<le> sz * 2 * 2 ^ j" "\<forall>i<j. sz * 2 * 2 ^ i < n"
      by blast
    have e: "expand_size sz n = expand_size (sz * 2) n"
      using True by (subst expand_size.simps) simp
    have all: "\<forall>i<Suc j. sz * 2 ^ i < n"
    proof (intro allI impI)
      fix i assume "i < Suc j"
      show "sz * 2 ^ i < n"
      proof (cases i)
        case 0
        with True show ?thesis by simp
      next
        case (Suc i')
        with \<open>i < Suc j\<close> j(5) have "sz * 2 * 2 ^ i' < n" by simp
        with Suc show ?thesis by (simp add: mult.assoc)
      qed
    qed
    show ?thesis
      using j e u all by (intro exI [of _ "Suc j"]) (simp add: mult.assoc)
  qed
qed

text \<open>
  C9. The doubling loop of \<^verbatim>\<open>msgpack_zone_malloc_expand\<close> ends for every request that
  is at most some \<open>chunk_size * 2 ^ k\<close> representable in \<^verbatim>\<open>size_t\<close>, when \<open>chunk_size\<close> is
  at least 1; with \<open>chunk_size = 0\<close> and a request above 0 it never ends.
\<close>

theorem expand_size_terminates:
  "(1 \<le> unat c \<and> (\<exists>k. unat c * 2 ^ k < 2 ^ 64 \<and> unat n \<le> unat c * 2 ^ k)
      \<longrightarrow> (\<exists>s. expand_size c n = Some s \<and> n \<le> s))
   \<and> (0 < n \<longrightarrow> expand_size 0 n = None)"
proof (intro conjI impI)
  assume "1 \<le> unat c \<and> (\<exists>k. unat c * 2 ^ k < 2 ^ 64 \<and> unat n \<le> unat c * 2 ^ k)"
  then obtain k where "unat c * 2 ^ k < 2 ^ 64" "unat n \<le> unat c * 2 ^ k"
    by blast
  from expand_size_reaches [OF this] show "\<exists>s. expand_size c n = Some s \<and> n \<le> s"
    by blast
next
  assume "0 < n"
  then show "expand_size 0 n = None"
    by (rule expand_size_zero)
qed

theorem expand_size_terminates_witness:
  "(1 \<le> unat (64 :: size_t) \<and> (\<exists>k. unat (64 :: size_t) * 2 ^ k < 2 ^ 64
        \<and> unat (100 :: size_t) \<le> unat (64 :: size_t) * 2 ^ k))
   \<and> (\<exists>s. expand_size 64 100 = Some s \<and> 100 \<le> s)
   \<and> (0 :: size_t) < 100 \<and> expand_size 0 100 = None"
proof -
  have k: "unat (64 :: size_t) * 2 ^ 1 < 2 ^ 64 \<and> unat (100 :: size_t) \<le> unat (64 :: size_t) * 2 ^ 1"
    by simp
  then have h: "1 \<le> unat (64 :: size_t)
      \<and> (\<exists>k. unat (64 :: size_t) * 2 ^ k < 2 ^ 64 \<and> unat (100 :: size_t) \<le> unat (64 :: size_t) * 2 ^ k)"
    by (intro conjI exI [of _ 1]) simp_all
  have p: "(0 :: size_t) < 100" by simp
  from expand_size_terminates [of 64 100] h p show ?thesis
    by blast
qed

section \<open>The slow path of allocation\<close>

lemma expand_size_covers: "expand_size sz n = Some s \<Longrightarrow> n \<le> s"
  by (rule expand_size.raw_induct [where P = "\<lambda>sz n s. n \<le> s"])
     (auto split: if_splits)

lemma alloc_chunk_header:
  assumes a: "alloc_chunk h m (sizeof_chunk + s) nx = Inr h'"
  shows "m \<noteq> 0 \<and> h' = h\<lparr>chunks := (m, \<lparr>next' = nx, capacity = unat s\<rparr>) # chunks h\<rparr>"
proof -
  from a have m: "m \<noteq> 0" and le: "(8 :: size_t) \<le> 8 + s"
    by (auto simp: alloc_chunk_def sizeof_chunk_def split: if_splits)
  from le have "unat (8 + s) = 8 + unat s"
    by (simp add: unat_plus_simple)
  with a m le show ?thesis
    by (auto simp: alloc_chunk_def sizeof_chunk_def split: if_splits)
qed

lemma alloc_chunk_fits:
  assumes m: "m \<noteq> 0" and f: "unat s + 8 < 2 ^ 64"
  shows "alloc_chunk h m (sizeof_chunk + s) nx
     = Inr (h\<lparr>chunks := (m, \<lparr>next' = nx, capacity = unat s\<rparr>) # chunks h\<rparr>)"
proof -
  from f have u: "unat (8 + s) = 8 + unat s"
    by (simp add: unat_word_ariths)
  then have "\<not> (8 + s < (8 :: size_t))"
    by (simp add: word_less_nat_alt)
  with m u show ?thesis
    by (simp add: alloc_chunk_def sizeof_chunk_def)
qed

text \<open>
  C3, as amended. Let the request \<open>n\<close> be at most some \<open>chunk_size * 2 ^ k\<close> that, with the
  8 bytes of the chunk header added, is still below \<open>2 ^ 64\<close>, and let \<^verbatim>\<open>malloc\<close> return a
  block \<open>m\<close>. Then \<^verbatim>\<open>msgpack_zone_malloc_expand\<close> returns: the size \<open>s\<close> of the new chunk is
  \<open>chunk_size\<close> doubled \<open>j\<close> times, \<open>j\<close> the first number of doublings that reaches the
  request; the chunk \<open>m\<close>, with \<open>s\<close> data bytes and the previous head as its \<open>next\<close>, is
  the new head; \<open>free\<close> is \<open>s - n\<close>; the cursor is the start of the data of \<open>m\<close> plus
  \<open>n\<close>; and the start of the data of \<open>m\<close> is the pointer returned.
\<close>

theorem malloc_expand_pushes_chunk:
  assumes m: "m \<noteq> 0" and fits: "unat (chunk_size z) * 2 ^ k + 8 < 2 ^ 64"
    and le: "unat n \<le> unat (chunk_size z) * 2 ^ k"
  shows "\<exists>j\<le>k. n \<le> chunk_size z * 2 ^ j \<and> (\<forall>i<j. chunk_size z * 2 ^ i < n)
      \<and> unat (chunk_size z * 2 ^ j) = unat (chunk_size z) * 2 ^ j
      \<and> msgpack_zone_malloc_expand h m z n =
          Inr ((m, 8),
               h\<lparr>chunks := (m, \<lparr>next' = head (chunk_list z),
                                capacity = unat (chunk_size z * 2 ^ j)\<rparr>) # chunks h\<rparr>,
               z\<lparr>chunk_list := \<lparr>free = chunk_size z * 2 ^ j - n,
                                ptr = (m, 8 + unat n), head = m\<rparr>\<rparr>)"
proof -
  from fits have "unat (chunk_size z) * 2 ^ k < 2 ^ 64" by simp
  from expand_size_reaches [OF this le] obtain j where j: "j \<le> k"
    "expand_size (chunk_size z) n = Some (chunk_size z * 2 ^ j)"
    "unat (chunk_size z * 2 ^ j) = unat (chunk_size z) * 2 ^ j"
    "n \<le> chunk_size z * 2 ^ j" "\<forall>i<j. chunk_size z * 2 ^ i < n"
    by blast
  from j(1) have "(2 :: nat) ^ j \<le> 2 ^ k"
    by (rule power_increasing) simp
  then have "unat (chunk_size z) * 2 ^ j \<le> unat (chunk_size z) * 2 ^ k"
    by (rule mult_le_mono2)
  with fits have "unat (chunk_size z) * 2 ^ j + 8 < 2 ^ 64" by linarith
  with j(3) have "unat (chunk_size z * 2 ^ j) + 8 < 2 ^ 64" by (simp only:)
  from alloc_chunk_fits [OF m this] j show ?thesis
    by (intro exI [of _ j]) (simp add: msgpack_zone_malloc_expand_def sizeof_chunk_def)
qed

text \<open>
  The theorem at the zone of one chunk of 64 bytes and a request of 100 bytes: one
  doubling, to 128 bytes.
\<close>

theorem malloc_expand_pushes_chunk_witness:
  "(2 :: nat) \<noteq> 0 \<and> unat (chunk_size zone_one_chunk) * 2 ^ 1 + 8 < 2 ^ 64
   \<and> unat (100 :: size_t) \<le> unat (chunk_size zone_one_chunk) * 2 ^ 1
   \<and> msgpack_zone_malloc_expand heap_one_chunk 2 zone_one_chunk 100
       = Inr ((2, 8), heap_two_chunks, zone_two_chunks)"
proof -
  have a: "(2 :: nat) \<noteq> 0" by simp
  have b: "unat (chunk_size zone_one_chunk) * 2 ^ 1 + 8 < 2 ^ 64"
    by (simp add: zone_one_chunk_def)
  have c: "unat (100 :: size_t) \<le> unat (chunk_size zone_one_chunk) * 2 ^ 1"
    by (simp add: zone_one_chunk_def)
  from malloc_expand_pushes_chunk [OF a b c, of heap_one_chunk] obtain j where
    j: "j \<le> 1" "(100 :: size_t) \<le> chunk_size zone_one_chunk * 2 ^ j"
    and r: "msgpack_zone_malloc_expand heap_one_chunk 2 zone_one_chunk 100 =
          Inr ((2, 8),
               heap_one_chunk\<lparr>chunks := (2, \<lparr>next' = head (chunk_list zone_one_chunk),
                 capacity = unat (chunk_size zone_one_chunk * 2 ^ j)\<rparr>) # chunks heap_one_chunk\<rparr>,
               zone_one_chunk\<lparr>chunk_list := \<lparr>free = chunk_size zone_one_chunk * 2 ^ j - 100,
                 ptr = (2, 8 + unat (100 :: size_t)), head = 2\<rparr>\<rparr>)"
    by blast
  from j have "j = 1"
    by (cases j) (simp_all add: zone_one_chunk_def)
  with r have "msgpack_zone_malloc_expand heap_one_chunk 2 zone_one_chunk 100
       = Inr ((2, 8), heap_two_chunks, zone_two_chunks)"
    by (simp add: zone_defs)
  with a b c show ?thesis by blast
qed

text \<open>
  C3 as it stands fails on two zones. With chunks of 0 bytes, as
  \<^verbatim>\<open>msgpack_zone_init(&zone, 0)\<close> makes them, a request of 1 byte doubles 0 for ever.
  With chunks of \<open>2 ^ 64 - 4\<close> bytes the size passed to \<^verbatim>\<open>malloc\<close> wraps around to 4, and
  the block returned cannot hold the header that is written to it.
\<close>

theorem malloc_expand_counterexample:
  "msgpack_zone_init empty_heap 1 0
     = Inr (Some (heap_one_chunk\<lparr>chunks := [(1, \<lparr>next' = 0, capacity = 0\<rparr>)]\<rparr>,
                  zone_one_chunk\<lparr>chunk_list := \<lparr>free = 0, ptr = (1, 8), head = 1\<rparr>,
                                 chunk_size := 0\<rparr>))
   \<and> msgpack_zone_malloc_expand
        (heap_one_chunk\<lparr>chunks := [(1, \<lparr>next' = 0, capacity = 0\<rparr>)]\<rparr>) 2
        (zone_one_chunk\<lparr>chunk_list := \<lparr>free = 0, ptr = (1, 8), head = 1\<rparr>, chunk_size := 0\<rparr>) 1
     = Inl NonTermination
   \<and> msgpack_zone_malloc_expand heap_one_chunk 2 (zone_one_chunk\<lparr>chunk_size := - 4\<rparr>) 1
     = Inl BufferOverflow"
proof (intro conjI)
  show "msgpack_zone_malloc_expand
        (heap_one_chunk\<lparr>chunks := [(1, \<lparr>next' = 0, capacity = 0\<rparr>)]\<rparr>) 2
        (zone_one_chunk\<lparr>chunk_list := \<lparr>free = 0, ptr = (1, 8), head = 1\<rparr>, chunk_size := 0\<rparr>) 1
     = Inl NonTermination"
    by (simp add: msgpack_zone_malloc_expand_def expand_size_zero)
qed (simp_all add: zone_defs run_defs expand_size.simps)

text \<open>
  With \<^verbatim>\<open>malloc\<close> returning null the slow path returns nothing, whatever the zone
  and the request: it loops for ever or writes through the null pointer.
\<close>

lemma malloc_expand_null_fails:
  "msgpack_zone_malloc_expand h 0 z n = Inl NullDereference
   \<or> msgpack_zone_malloc_expand h 0 z n = Inl NonTermination"
  by (simp add: msgpack_zone_malloc_expand_def alloc_chunk_def split: option.splits)

text \<open>
  C1. When \<^verbatim>\<open>malloc\<close> fails inside \<^verbatim>\<open>msgpack_zone_malloc_expand\<close>, the caller should get
  the failure reported and find the chunk list as it was. The code does not test the
  pointer: on the zone that \<^verbatim>\<open>msgpack_zone_init\<close> makes with chunks of 64 bytes, a request
  of 100 bytes with \<^verbatim>\<open>malloc\<close> returning null writes \<^verbatim>\<open>chunk->next\<close> through the null
  pointer.
\<close>

theorem malloc_expand_null_unchecked:
  "msgpack_zone_init empty_heap 1 64 = Inr (Some (heap_one_chunk, zone_one_chunk))
   \<and> msgpack_zone_malloc_expand heap_one_chunk 0 zone_one_chunk 100 = Inl NullDereference"
  by (simp add: zone_defs run_defs expand_size.simps)

section \<open>The invariant of the chunk list\<close>

lemma init_chunk_list_inv:
  "init_chunk_list h m cs = Inr (Some (h', cl)) \<Longrightarrow> chunk_list_inv h' cl"
  by (auto simp: init_chunk_list_def chunk_list_inv_def load_chunk_def
      split: if_splits sum.splits dest!: alloc_chunk_header)

lemma malloc_expand_inv:
  assumes "msgpack_zone_malloc_expand h m z n = Inr (p, h', z')"
  shows "chunk_list_inv h' (chunk_list z')"
proof -
  from assms obtain s where s: "expand_size (chunk_size z) n = Some s"
    and a: "alloc_chunk h m (sizeof_chunk + s) (head (chunk_list z)) = Inr h'"
    and z': "z' = z\<lparr>chunk_list :=
               \<lparr>free = s - n, ptr = (m, unat sizeof_chunk + unat n), head = m\<rparr>\<rparr>"
    by (auto simp: msgpack_zone_malloc_expand_def Let_def split: option.splits sum.splits)
  from expand_size_covers [OF s] have "unat (s - n) = unat s - unat n" "unat n \<le> unat s"
    by (simp_all add: unat_sub word_le_nat_alt)
  with alloc_chunk_header [OF a] show ?thesis
    by (simp add: z' chunk_list_inv_def load_chunk_def)
qed

text \<open>
  C8. The invariant of the chunk list should hold after \<^verbatim>\<open>init\<close>, after the slow path of
  allocation and after \<^verbatim>\<open>clear\<close>. It does hold after the first two, as the two lemmas above
  say and as the zones of one and of two chunks show. \<^verbatim>\<open>msgpack_zone_clear\<close> on the zone
  of two chunks writes into the head chunk it has just released, and leaves no head
  chunk for the invariant to speak of.
\<close>

theorem clear_breaks_chunk_list_inv:
  "chunk_list_inv heap_one_chunk (chunk_list zone_one_chunk)
   \<and> chunk_list_inv heap_two_chunks (chunk_list zone_two_chunks)
   \<and> msgpack_zone_clear heap_two_chunks zone_two_chunks = ([], Inl InvalidAccess)"
  by (simp add: zone_defs run_defs)

section \<open>Clearing the chunk list\<close>

text \<open>
  A chunk that the loop of \<^verbatim>\<open>clear_chunk_list\<close> has released stays released; so on
  every list whose head chunk has a successor, the write through \<^verbatim>\<open>cl->head\<close> that
  follows the loop fails.
\<close>

lemma clear_loop_keeps_dead:
  "clear_chunk_list_loop h c = Inr (h', c') \<Longrightarrow> map_of (chunks h) b = None \<Longrightarrow>
   map_of (chunks h') b = None"
proof (induction h c rule: clear_chunk_list_loop.induct)
  case (1 h c)
  show ?case
  proof (cases "load_chunk h c")
    case (Inl e)
    with "1.prems"(1) show ?thesis
      by (subst (asm) clear_chunk_list_loop.simps) simp
  next
    case (Inr ck)
    show ?thesis
    proof (cases "next' ck = 0")
      case True
      with Inr "1.prems" show ?thesis
        by (subst (asm) clear_chunk_list_loop.simps) simp
    next
      case False
      from Inr have live: "c \<noteq> 0" "map_of (chunks h) c = Some ck"
        by (auto simp: load_chunk_def split: if_splits option.splits)
      then have fr: "free_chunk h c = Inr (h\<lparr>chunks := AList.delete c (chunks h)\<rparr>)"
        by (simp add: free_chunk_def)
      from "1.prems"(1) Inr False fr
      have rest: "clear_chunk_list_loop (h\<lparr>chunks := AList.delete c (chunks h)\<rparr>) (next' ck)
          = Inr (h', c')"
        by (subst (asm) clear_chunk_list_loop.simps) simp
      from "1.prems"(2) have "map_of (chunks (h\<lparr>chunks := AList.delete c (chunks h)\<rparr>)) b = None"
        by (simp add: AList.delete_conv')
      from "1.IH" [OF Inr False fr rest this] show ?thesis .
    qed
  qed
qed

lemma clear_chunk_list_fails_on_longer_list:
  assumes ld: "load_chunk h (head cl) = Inr ck" and more: "next' ck \<noteq> 0"
  shows "\<exists>e. clear_chunk_list h cl cs = Inl e"
proof (cases "clear_chunk_list_loop h (head cl)")
  case (Inl e)
  then show ?thesis by (simp add: clear_chunk_list_def)
next
  case (Inr r)
  obtain h' c' where r: "r = (h', c')" by (cases r)
  from ld have live: "head cl \<noteq> 0" "map_of (chunks h) (head cl) = Some ck"
    by (auto simp: load_chunk_def split: if_splits option.splits)
  then have fr: "free_chunk h (head cl) = Inr (h\<lparr>chunks := AList.delete (head cl) (chunks h)\<rparr>)"
    by (simp add: free_chunk_def)
  from Inr r ld more fr
  have rest: "clear_chunk_list_loop (h\<lparr>chunks := AList.delete (head cl) (chunks h)\<rparr>) (next' ck)
      = Inr (h', c')"
    by (subst (asm) clear_chunk_list_loop.simps) simp
  have "map_of (chunks (h\<lparr>chunks := AList.delete (head cl) (chunks h)\<rparr>)) (head cl) = None"
    by (simp add: AList.delete_conv')
  from clear_loop_keeps_dead [OF rest this] live(1)
  have "load_chunk h' (head cl) = Inl InvalidAccess"
    by (simp add: load_chunk_def)
  with Inr r show ?thesis
    by (simp add: clear_chunk_list_def store_next_def)
qed

text \<open>
  C5. \<^verbatim>\<open>clear\<close> should release every chunk but the oldest and make the oldest the only
  chunk of the list. On a list of two chunks the loop of \<^verbatim>\<open>clear_chunk_list\<close> does
  release the newest chunk, block 2, and stops at the oldest, block 1; but
  \<^verbatim>\<open>cl->head\<close> is never set to it, and the next statement, \<^verbatim>\<open>cl->head->next = NULL\<close>,
  writes into the chunk just released.
\<close>

theorem clear_chunk_list_keeps_released_head:
  "msgpack_zone_malloc_expand heap_one_chunk 2 zone_one_chunk 100
     = Inr ((2, 8), heap_two_chunks, zone_two_chunks)
   \<and> clear_chunk_list_loop heap_two_chunks (head (chunk_list zone_two_chunks))
     = Inr (heap_one_chunk, 1)
   \<and> clear_chunk_list heap_two_chunks (chunk_list zone_two_chunks) 64 = Inl InvalidAccess"
  by (simp add: zone_defs run_defs expand_size.simps)

section \<open>Releasing a zone\<close>

text \<open>
  C10. \<^verbatim>\<open>msgpack_zone_free\<close> on the null pointer returns at once: no finalizer is called
  and the heap is the one it was given.
\<close>

theorem msgpack_zone_free_null:
  "msgpack_zone_free h 0 = ([], Inr h)"
  by (simp add: msgpack_zone_free_def)

section \<open>Registering finalizers\<close>

text \<open>
  The array grows to twice its slots. Where the write of the new entry is in bounds,
  neither the doubling nor the size in bytes has wrapped around.
\<close>

lemma doubled_slots:
  assumes "cap < 2 ^ 64" "cap \<noteq> 0"
    and "cap < unat (16 * (of_nat cap * 2 :: 64 word)) div 16"
  shows "unat (of_nat cap * 2 :: 64 word) = 2 * cap"
    and "unat (16 * (of_nat cap * 2 :: 64 word)) div 16 = 2 * cap"
proof -
  have b: "unat (16 * (of_nat cap * 2 :: 64 word)) = (32 * cap) mod 2 ^ 64"
    by (simp add: unat_word_ariths unat_of_nat mod_mult_right_eq mod_mult_left_eq) 
  have small: "32 * cap < 2 ^ 64"
  proof (rule ccontr)
    assume "\<not> 32 * cap < 2 ^ 64"
    then have ge: "2 ^ 64 \<le> 32 * cap" by simp
    have "(32 * cap) mod 2 ^ 64 < 2 ^ 64" by simp
    show False
    proof (cases "32 * cap < 2 * 2 ^ 64")
      case True
      with ge have "(32 * cap) mod 2 ^ 64 = 32 * cap - 2 ^ 64"
        by (simp add: mod_if)
      with assms(3) b show False by simp
    next
      case False
      then have "2 ^ 64 div 16 \<le> cap" by simp
      moreover have "(32 * cap) mod 2 ^ 64 div 16 < 2 ^ 64 div 16"
        by simp
      ultimately show False using assms(3) b by simp
    qed
  qed
  then show "unat (of_nat cap * 2 :: 64 word) = 2 * cap"
    by (simp add: unat_word_ariths unat_of_nat)
  from small b show "unat (16 * (of_nat cap * 2 :: 64 word)) div 16 = 2 * cap"
    by simp
qed

lemma call_loop_registered:
  "map_of (arrays h) b = Some st \<Longrightarrow> b \<noteq> 0 \<Longrightarrow> length es \<le> length st \<Longrightarrow>
   take (length es) st = map Some es \<Longrightarrow>
   call_finalizer_array_loop h (b, 0) b (length es) = (rev es, None)"
proof (induction es rule: rev_induct)
  case Nil
  then show ?case by simp
next
  case (snoc x xs)
  from snoc.prems have lt: "length xs < length st" by simp
  from snoc.prems(4) have "take (length xs) (take (length (xs @ [x])) st) = take (length xs) (map Some (xs @ [x]))"
    by simp
  then have tk: "take (length xs) st = map Some xs" by simp
  from snoc.prems(4) have "take (length (xs @ [x])) st ! length xs = map Some (xs @ [x]) ! length xs"
    by simp
  then have nth: "st ! length xs = Some x"
    by (simp add: nth_append)
  from snoc.prems lt nth have ld: "load_finalizer h (b, length xs) = Inr x"
    by (simp add: load_finalizer_def)
  from snoc.IH [OF snoc.prems(1,2) _ tk] lt
  have "call_finalizer_array_loop h (b, 0) b (length xs) = (rev xs, None)" by simp
  with ld show ?case by simp
qed

lemma call_finalizer_array_registered:
  "holds_finalizers h fa es \<Longrightarrow> call_finalizer_array h fa = (rev es, None)"
proof (cases "fst (array fa) = 0")
  case True
  assume "holds_finalizers h fa es"
  with True show ?thesis
    by (cases "array fa") (simp add: holds_finalizers_def call_finalizer_array_def)
next
  case False
  assume hf: "holds_finalizers h fa es"
  with False obtain st where st: "map_of (arrays h) (fst (array fa)) = Some st"
    "length es \<le> length st" "take (length es) st = map Some es"
    by (auto simp: holds_finalizers_def split: option.splits)
  from hf have a: "array fa = (fst (array fa), 0)" "tail fa = (fst (array fa), length es)"
    by (simp_all add: holds_finalizers_def prod_eq_iff)
  from call_loop_registered [OF st(1) False st(2,3)] a show ?thesis
    by (simp add: call_finalizer_array_def)
qed

lemma word_of_nat_eq_0: "n < 2 ^ 64 \<Longrightarrow> (of_nat n :: 64 word) = 0 \<longleftrightarrow> n = 0"
proof
  assume b: "n < 2 ^ 64" and z: "(of_nat n :: 64 word) = 0"
  from b have "unat (of_nat n :: 64 word) = n"
    by (simp add: unat_of_nat)
  with z show "n = 0" by simp
qed simp

lemma take_snoc_written:
  "length es < slots \<Longrightarrow>
   take (Suc (length es)) ((take slots (map Some es @ replicate slots None))[length es := Some x])
     = map Some (es @ [x])"
  by (simp add: take_Suc_conv_app_nth nth_append)

lemma push_expand_full:
  assumes hf: "holds_finalizers h (finalizer_array z) es"
    and full: "tail (finalizer_array z) = end' (finalizer_array z)"
    and ok: "msgpack_zone_push_finalizer_expand h r z f d = Inr (True, h', z')"
  shows "holds_finalizers h' (finalizer_array z') (es @ [\<lparr>func = f, data = d\<rparr>])"
    and "chunks h' = chunks h" and "chunk_list z' = chunk_list z" and "chunk_size z' = chunk_size z"
    and "zones h' = zones h"
proof -
  let ?fa = "finalizer_array z"
  let ?x = "\<lparr>func = f, data = d\<rparr>"
  define cap where "cap = length es"
  define nused :: size_t where "nused = of_nat cap"
  define nnext :: size_t where "nnext = (if nused = 0 then 4 else nused * 2)"
  define slots where "slots = unat (16 * nnext) div 16"
  have r: "r \<noteq> 0"
    using ok by (auto simp: msgpack_zone_push_finalizer_expand_def Let_def split: sum.splits if_splits)
  from hf have a: "array ?fa = (fst (array ?fa), 0)" "tail ?fa = (fst (array ?fa), cap)"
    by (simp_all add: holds_finalizers_def prod_eq_iff cap_def)
  with full have e: "end' ?fa = (fst (array ?fa), cap)" by simp
  from hf have a0: "snd (array ?fa) = 0"
    by (simp add: holds_finalizers_def)
  have capb: "cap < 2 ^ 64"
    using hf full by (auto simp: holds_finalizers_def cap_def split: if_splits option.splits)
  have nu: "of_nat (snd (end' ?fa)) - of_nat (snd (array ?fa)) = nused"
    by (subst e, subst a) (simp add: nused_def)
  have un: "unat nused = cap"
    using capb by (simp add: nused_def unat_of_nat)
  have nn: "(if nused = 0 then (if sizeof_finalizer < 72 div 2 then 72 div sizeof_finalizer else 8)
             else nused * 2) = nnext"
    by (simp add: nnext_def sizeof_finalizer_def)
  have sl: "unat (sizeof_finalizer * nnext) div unat sizeof_finalizer = slots"
    by (simp add: slots_def sizeof_finalizer_def)
  define st0 where "st0 = map Some es"
  have old: "(fst (array ?fa) = 0 \<and> es = [] \<and> array ?fa = NULL) \<or>
             (array ?fa \<noteq> NULL \<and> map_of (arrays h) (fst (array ?fa)) = Some st0)"
    using hf full a by (auto simp: holds_finalizers_def NULL_def st0_def prod_eq_iff split: if_splits option.splits)
  define ar1 where "ar1 = (if array ?fa = NULL then (r, replicate slots None) # arrays h
     else (r, take slots (st0 @ replicate slots None)) # AList.delete (fst (array ?fa)) (arrays h))"
  have re: "realloc_array h (array ?fa) (sizeof_finalizer * nnext) r = Inr (h\<lparr>arrays := ar1\<rparr>)"
    using old r a0 by (auto simp: realloc_array_def sl ar1_def Let_def)
  have st1: "map_of ar1 r = Some (take slots (st0 @ replicate slots None))"
    using old by (auto simp: ar1_def st0_def)
  have len1: "length (take slots (st0 @ replicate slots None)) = slots"
    by simp
  from ok have ok': "(case store_finalizer (h\<lparr>arrays := ar1\<rparr>) (r, cap) ?x of
        Inl e \<Rightarrow> Inl e
      | Inr h'' \<Rightarrow> Inr (True, h'', z\<lparr>finalizer_array := \<lparr>tail = (r, cap + 1), end' = (r, unat nnext), array = (r, 0)\<rparr>\<rparr>))
      = Inr (True, h', z')"
    unfolding msgpack_zone_push_finalizer_expand_def Let_def nu nn re un using r by simp
  then have lt: "cap < slots"
    using r st1 by (auto simp: store_finalizer_def split: if_splits sum.splits)
  with ok' r st1 have h': "h' = h\<lparr>arrays := AList.update r ((take slots (st0 @ replicate slots None))[cap := Some ?x]) ar1\<rparr>"
    and z': "z' = z\<lparr>finalizer_array := \<lparr>tail = (r, cap + 1), end' = (r, unat nnext), array = (r, 0)\<rparr>\<rparr>"
    by (auto simp: store_finalizer_def split: if_splits)
  have sn: "unat nnext = slots"
  proof (cases "cap = 0")
    case True
    then show ?thesis by (simp add: slots_def nnext_def nused_def)
  next
    case False
    with capb have "nused \<noteq> 0" by (simp add: nused_def word_of_nat_eq_0)
    then have n2: "nnext = of_nat cap * 2" by (simp add: nnext_def nused_def)
    from lt have "cap < unat (16 * (of_nat cap * 2 :: 64 word)) div 16"
      by (simp add: slots_def n2)
    from doubled_slots [OF capb False this] show ?thesis
      by (simp add: slots_def n2)
  qed
  have "unat nnext < 2 ^ 64"
    using unsigned_less [of nnext] by simp
  with sn have "slots < 2 ^ 64" by simp
  define st2 where "st2 = (take slots (st0 @ replicate slots None))[cap := Some ?x]"
  have tk: "take (Suc (length es)) st2 = map Some (es @ [?x])"
    using lt unfolding st2_def st0_def cap_def by (rule take_snoc_written)
  have l2: "length st2 = slots"
    by (simp add: st2_def)
  have h2: "h' = h\<lparr>arrays := AList.update r st2 ar1\<rparr>"
    by (simp add: h' st2_def)
  from lt r sn \<open>slots < 2 ^ 64\<close> tk l2 show "holds_finalizers h' (finalizer_array z') (es @ [?x])"
    unfolding h2 z'
    by (simp add: holds_finalizers_def AList.update_conv' cap_def)
  show "chunks h' = chunks h" "chunk_list z' = chunk_list z" "chunk_size z' = chunk_size z"
    "zones h' = zones h"
    by (simp_all add: h' z')
qed

lemma push_expand_full_returns:
  assumes hf: "holds_finalizers h (finalizer_array z) es"
    and full: "tail (finalizer_array z) = end' (finalizer_array z)"
    and r: "r \<noteq> 0" and fits: "32 * length es < 2 ^ 64"
  shows "\<exists>h' z'. msgpack_zone_push_finalizer_expand h r z f d = Inr (True, h', z')"
proof -
  let ?fa = "finalizer_array z"
  let ?x = "\<lparr>func = f, data = d\<rparr>"
  define cap where "cap = length es"
  define nused :: size_t where "nused = of_nat cap"
  define nnext :: size_t where "nnext = (if nused = 0 then 4 else nused * 2)"
  define slots where "slots = unat (16 * nnext) div 16"
  from hf have a: "array ?fa = (fst (array ?fa), 0)" "tail ?fa = (fst (array ?fa), cap)"
    by (simp_all add: holds_finalizers_def prod_eq_iff cap_def)
  with full have e: "end' ?fa = (fst (array ?fa), cap)" by simp
  from hf have a0: "snd (array ?fa) = 0"
    by (simp add: holds_finalizers_def)
  from fits have capb: "cap < 2 ^ 64"
    by (simp add: cap_def)
  have nu: "of_nat (snd (end' ?fa)) - of_nat (snd (array ?fa)) = nused"
    by (subst e, subst a) (simp add: nused_def)
  have un: "unat nused = cap"
    using capb by (simp add: nused_def unat_of_nat)
  have nn: "(if nused = 0 then (if sizeof_finalizer < 72 div 2 then 72 div sizeof_finalizer else 8)
             else nused * 2) = nnext"
    by (simp add: nnext_def sizeof_finalizer_def)
  have sl: "unat (sizeof_finalizer * nnext) div unat sizeof_finalizer = slots"
    by (simp add: slots_def sizeof_finalizer_def)
  define st0 where "st0 = map Some es"
  have old: "(fst (array ?fa) = 0 \<and> es = [] \<and> array ?fa = NULL) \<or>
             (array ?fa \<noteq> NULL \<and> map_of (arrays h) (fst (array ?fa)) = Some st0)"
    using hf full a by (auto simp: holds_finalizers_def NULL_def st0_def prod_eq_iff split: if_splits option.splits)
  define ar1 where "ar1 = (if array ?fa = NULL then (r, replicate slots None) # arrays h
     else (r, take slots (st0 @ replicate slots None)) # AList.delete (fst (array ?fa)) (arrays h))"
  have re: "realloc_array h (array ?fa) (sizeof_finalizer * nnext) r = Inr (h\<lparr>arrays := ar1\<rparr>)"
    using old r a0 by (auto simp: realloc_array_def sl ar1_def Let_def)
  have st1: "map_of ar1 r = Some (take slots (st0 @ replicate slots None))"
    using old by (auto simp: ar1_def st0_def)
  have lt: "cap < slots"
  proof (cases "cap = 0")
    case True
    then show ?thesis by (simp add: slots_def nnext_def nused_def)
  next
    case False
    with capb have "nused \<noteq> 0" by (simp add: nused_def word_of_nat_eq_0)
    then have n2: "nnext = of_nat cap * 2" by (simp add: nnext_def nused_def)
    have "unat (16 * (of_nat cap * 2 :: 64 word)) = 32 * cap"
      using fits by (simp add: unat_word_ariths unat_of_nat cap_def mod_mult_right_eq mod_mult_left_eq)
    with False show ?thesis
      by (simp add: slots_def n2)
  qed
  with r st1 have "store_finalizer (h\<lparr>arrays := ar1\<rparr>) (r, cap) ?x
      = Inr (h\<lparr>arrays := AList.update r ((take slots (st0 @ replicate slots None))[cap := Some ?x]) ar1\<rparr>)"
    by (simp add: store_finalizer_def)
  then show ?thesis
    unfolding msgpack_zone_push_finalizer_expand_def Let_def nu nn re un using r by simp
qed

lemma push_fast:
  assumes hf: "holds_finalizers h (finalizer_array z) es"
    and room: "tail (finalizer_array z) \<noteq> end' (finalizer_array z)"
    and ok: "msgpack_zone_push_finalizer h r z f d = Inr (True, h', z')"
  shows "holds_finalizers h' (finalizer_array z') (es @ [\<lparr>func = f, data = d\<rparr>])"
proof -
  let ?fa = "finalizer_array z"
  let ?x = "\<lparr>func = f, data = d\<rparr>"
  let ?b = "fst (array ?fa)"
  from hf room have b: "?b \<noteq> 0"
    by (auto simp: holds_finalizers_def NULL_def split: if_splits)
  with hf obtain st where st: "map_of (arrays h) ?b = Some st" "end' ?fa = (?b, length st)"
    "length st < 2 ^ 64" "length es \<le> length st" "take (length es) st = map Some es"
    by (auto simp: holds_finalizers_def split: option.splits)
  from hf have t: "tail ?fa = (?b, length es)" and a0: "snd (array ?fa) = 0"
    by (simp_all add: holds_finalizers_def)
  from room t st(2,4) have lt: "length es < length st" by auto
  from ok room t b st(1) lt
  have h': "h' = h\<lparr>arrays := AList.update ?b (st[length es := Some ?x]) (arrays h)\<rparr>"
    and z': "z' = z\<lparr>finalizer_array := ?fa\<lparr>tail := (?b, length es + 1)\<rparr>\<rparr>"
    by (auto simp: msgpack_zone_push_finalizer_def Let_def store_finalizer_def)
  have tk: "take (Suc (length es)) (st[length es := Some ?x]) = map Some (es @ [?x])"
    using lt st(5) by (simp add: take_Suc_conv_app_nth)
  from b st(2,3) lt tk a0 show ?thesis
    unfolding h' z' by (simp add: holds_finalizers_def AList.update_conv')
qed

lemma push_registers:
  assumes hf: "holds_finalizers h (finalizer_array z) es"
    and ok: "msgpack_zone_push_finalizer h r z f d = Inr (True, h', z')"
  shows "holds_finalizers h' (finalizer_array z') (es @ [\<lparr>func = f, data = d\<rparr>])"
proof (cases "tail (finalizer_array z) = end' (finalizer_array z)")
  case True
  with ok have "msgpack_zone_push_finalizer_expand h r z f d = Inr (True, h', z')"
    by (simp add: msgpack_zone_push_finalizer_def)
  from push_expand_full(1) [OF hf True this] show ?thesis .
next
  case False
  from push_fast [OF hf False ok] show ?thesis .
qed

lemma push_all_registers:
  "holds_finalizers h (finalizer_array z) es \<Longrightarrow> push_all h z rfs = Some (h', z') \<Longrightarrow>
   holds_finalizers h' (finalizer_array z') (es @ map snd rfs)"
proof (induction rfs arbitrary: h z es)
  case Nil
  then show ?case by simp
next
  case (Cons rf rfs)
  obtain r f where rf: "rf = (r, f)" by (cases rf)
  from Cons.prems(2) rf obtain h1 z1 where
    p: "msgpack_zone_push_finalizer h r z (func f) (data f) = Inr (True, h1, z1)"
    and rest: "push_all h1 z1 rfs = Some (h', z')"
    by (auto split: sum.splits bool.splits if_splits)
  have "\<lparr>func = func f, data = data f\<rparr> = f"
    by (cases f) simp
  with push_registers [OF Cons.prems(1) p]
  have "holds_finalizers h1 (finalizer_array z1) (es @ [f])" by simp
  from Cons.IH [OF this rest] rf show ?case by simp
qed

lemma clear_calls:
  "holds_finalizers h (finalizer_array z) es \<Longrightarrow> fst (msgpack_zone_clear h z) = rev es"
  by (simp add: msgpack_zone_clear_def clear_finalizer_array_def call_finalizer_array_registered
      split: sum.splits prod.splits)

lemma destroy_calls:
  "holds_finalizers h (finalizer_array z) es \<Longrightarrow> fst (msgpack_zone_destroy h z) = rev es"
  by (simp add: msgpack_zone_destroy_def destroy_finalizer_array_def call_finalizer_array_registered
      split: sum.splits prod.splits)



text \<open>
  C4, as amended. On a finalizer array in order: when \<^verbatim>\<open>realloc\<close> fails,
  \<^verbatim>\<open>msgpack_zone_push_finalizer_expand\<close> returns 0 and leaves the heap and the zone as
  they were. When \<^verbatim>\<open>realloc\<close> succeeds, on an array that is full (\<open>tail = end\<close>) and whose
  doubled size in bytes is below \<open>2 ^ 64\<close>, it returns 1 and the array holds the old
  entries followed by the new one: the new entry is at the index that was the length,
  and the length is one more.
\<close>

theorem push_finalizer_expand_on_full_array:
  assumes hf: "holds_finalizers h (finalizer_array z) es"
  shows "msgpack_zone_push_finalizer_expand h 0 z f d = Inr (False, h, z)
    \<and> (r \<noteq> 0 \<and> tail (finalizer_array z) = end' (finalizer_array z)
          \<and> 32 * length es < 2 ^ 64 \<longrightarrow>
        (\<exists>h' z'. msgpack_zone_push_finalizer_expand h r z f d = Inr (True, h', z')
           \<and> holds_finalizers h' (finalizer_array z') (es @ [\<lparr>func = f, data = d\<rparr>])
           \<and> chunks h' = chunks h \<and> chunk_list z' = chunk_list z
           \<and> chunk_size z' = chunk_size z))"
proof (intro conjI impI)
  from hf have "realloc_array h (array (finalizer_array z)) n 0 = Inr h" for n
    by (auto simp: holds_finalizers_def realloc_array_def NULL_def prod_eq_iff Let_def
        split: if_splits option.splits)
  then show "msgpack_zone_push_finalizer_expand h 0 z f d = Inr (False, h, z)"
    by (simp add: msgpack_zone_push_finalizer_expand_def Let_def)
next
  assume a: "r \<noteq> 0 \<and> tail (finalizer_array z) = end' (finalizer_array z)
          \<and> 32 * length es < 2 ^ 64"
  then have r: "r \<noteq> 0" and full: "tail (finalizer_array z) = end' (finalizer_array z)"
    and fits: "32 * length es < 2 ^ 64"
    by simp_all
  from push_expand_full_returns [OF hf full r fits] obtain h' z' where
    ok: "msgpack_zone_push_finalizer_expand h r z f d = Inr (True, h', z')"
    by blast
  from push_expand_full [OF hf full ok] ok
  show "\<exists>h' z'. msgpack_zone_push_finalizer_expand h r z f d = Inr (True, h', z')
           \<and> holds_finalizers h' (finalizer_array z') (es @ [\<lparr>func = f, data = d\<rparr>])
           \<and> chunks h' = chunks h \<and> chunk_list z' = chunk_list z
           \<and> chunk_size z' = chunk_size z"
    by blast
qed

text \<open>The theorem at the array of four slots that holds four entries.\<close>

theorem push_finalizer_expand_on_full_array_witness:
  "holds_finalizers heap_full_array (finalizer_array zone_full_array) four_finalizers
   \<and> msgpack_zone_push_finalizer_expand heap_full_array 0 zone_full_array 8 13
       = Inr (False, heap_full_array, zone_full_array)
   \<and> (4 :: nat) \<noteq> 0
   \<and> tail (finalizer_array zone_full_array) = end' (finalizer_array zone_full_array)
   \<and> 32 * length four_finalizers < (2 :: nat) ^ 64
   \<and> (\<exists>h' z'. msgpack_zone_push_finalizer_expand heap_full_array 4 zone_full_array 8 13
                  = Inr (True, h', z')
         \<and> holds_finalizers h' (finalizer_array z')
              (four_finalizers @ [\<lparr>func = 8, data = 13\<rparr>])
         \<and> chunks h' = chunks heap_full_array
         \<and> chunk_list z' = chunk_list zone_full_array
         \<and> chunk_size z' = chunk_size zone_full_array)"
proof -
  have hf: "holds_finalizers heap_full_array (finalizer_array zone_full_array) four_finalizers"
    by (simp add: zone_defs holds_finalizers_def)
  have pre: "(4 :: nat) \<noteq> 0
     \<and> tail (finalizer_array zone_full_array) = end' (finalizer_array zone_full_array)
     \<and> 32 * length four_finalizers < (2 :: nat) ^ 64"
    by (simp add: zone_defs)
  from push_finalizer_expand_on_full_array [OF hf, of 8 13 4] hf pre show ?thesis
    by blast
qed

text \<open>
  C4 as it stands fails on an array that is not full: the code takes \<open>end - array\<close>, the
  number of slots, for the place of the new entry, not \<open>tail - array\<close>, the number of
  entries. With four slots and one entry the new entry goes to slot 4 and \<open>tail\<close> to 5;
  the slots 1 to 3 now count as entries and have never been written.
\<close>

theorem push_finalizer_expand_counterexample:
  "msgpack_zone_push_finalizer heap_one_chunk 3 zone_one_chunk 7 9
     = Inr (True, heap_one_finalizer, zone_one_finalizer)
   \<and> msgpack_zone_push_finalizer_expand heap_one_finalizer 4 zone_one_finalizer 8 10
     = Inr (True,
            heap_one_finalizer\<lparr>arrays :=
              [(4, [Some \<lparr>func = 7, data = 9\<rparr>, None, None, None,
                    Some \<lparr>func = 8, data = 10\<rparr>, None, None, None])]\<rparr>,
            zone_one_finalizer\<lparr>finalizer_array :=
              \<lparr>tail = (4, 5), end' = (4, 8), array = (4, 0)\<rparr>\<rparr>)"
  by (simp add: zone_defs run_defs replicate_4 replicate_8)

text \<open>
  C2. After registrations that all succeed, on a zone with no finalizer registered
  before them, \<^verbatim>\<open>msgpack_zone_clear\<close> and \<^verbatim>\<open>msgpack_zone_destroy\<close> call the registered
  finalizers on their arguments in the reverse order of registration, each once: the
  calls made are the registered list, reversed.
\<close>

theorem finalizers_run_in_reverse:
  assumes "holds_finalizers h (finalizer_array z) []"
    and "push_all h z rfs = Some (h', z')"
  shows "fst (msgpack_zone_clear h' z') = rev (map snd rfs)
       \<and> fst (msgpack_zone_destroy h' z') = rev (map snd rfs)"
  using push_all_registers [OF assms] by (simp add: clear_calls destroy_calls)

text \<open>
  The theorem at five registrations on the zone of one chunk: the first one allocates
  the array, the fifth one makes it grow.
\<close>

theorem finalizers_run_in_reverse_witness:
  "holds_finalizers heap_one_chunk (finalizer_array zone_one_chunk) []
   \<and> (\<exists>h' z'. push_all heap_one_chunk zone_one_chunk
                 [(3, \<lparr>func = 7, data = 9\<rparr>), (0, \<lparr>func = 7, data = 10\<rparr>),
                  (0, \<lparr>func = 8, data = 11\<rparr>), (0, \<lparr>func = 8, data = 12\<rparr>),
                  (4, \<lparr>func = 8, data = 13\<rparr>)] = Some (h', z')
        \<and> fst (msgpack_zone_clear h' z')
            = [\<lparr>func = 8, data = 13\<rparr>, \<lparr>func = 8, data = 12\<rparr>, \<lparr>func = 8, data = 11\<rparr>,
               \<lparr>func = 7, data = 10\<rparr>, \<lparr>func = 7, data = 9\<rparr>]
        \<and> fst (msgpack_zone_destroy h' z')
            = [\<lparr>func = 8, data = 13\<rparr>, \<lparr>func = 8, data = 12\<rparr>, \<lparr>func = 8, data = 11\<rparr>,
               \<lparr>func = 7, data = 10\<rparr>, \<lparr>func = 7, data = 9\<rparr>])"
proof -
  have hf: "holds_finalizers heap_one_chunk (finalizer_array zone_one_chunk) []"
    by (simp add: zone_defs holds_finalizers_def NULL_def)
  have p: "push_all heap_one_chunk zone_one_chunk
                 [(3, \<lparr>func = 7, data = 9\<rparr>), (0, \<lparr>func = 7, data = 10\<rparr>),
                  (0, \<lparr>func = 8, data = 11\<rparr>), (0, \<lparr>func = 8, data = 12\<rparr>),
                  (4, \<lparr>func = 8, data = 13\<rparr>)]
       = Some (heap_one_chunk\<lparr>arrays :=
                 [(4, [Some \<lparr>func = 7, data = 9\<rparr>, Some \<lparr>func = 7, data = 10\<rparr>,
                       Some \<lparr>func = 8, data = 11\<rparr>, Some \<lparr>func = 8, data = 12\<rparr>,
                       Some \<lparr>func = 8, data = 13\<rparr>, None, None, None])]\<rparr>,
               zone_one_chunk\<lparr>finalizer_array :=
                 \<lparr>tail = (4, 5), end' = (4, 8), array = (4, 0)\<rparr>\<rparr>)"
    by (simp add: zone_defs run_defs replicate_4 replicate_8)
  from finalizers_run_in_reverse [OF hf p] hf p show ?thesis
    by simp
qed


section \<open>Emptiness\<close>

lemma is_empty_iff:
  "msgpack_zone_is_empty h z = Inr True \<longleftrightarrow>
     free (chunk_list z) = chunk_size z
     \<and> (\<exists>ck. load_chunk h (head (chunk_list z)) = Inr ck \<and> next' ck = 0)
     \<and> tail (finalizer_array z) = array (finalizer_array z)"
  by (auto simp: msgpack_zone_is_empty_def Let_def split: sum.splits)

lemma is_empty_after_init:
  "msgpack_zone_init h m cs = Inr (Some (h', z)) \<Longrightarrow> msgpack_zone_is_empty h' z = Inr True"
  by (auto simp: msgpack_zone_init_def init_chunk_list_def msgpack_zone_is_empty_def
      init_finalizer_array_def load_chunk_def
      split: if_splits sum.splits option.splits dest!: alloc_chunk_header)

lemma is_empty_after_new:
  "msgpack_zone_new h mz mc cs = Inr (zp, h') \<Longrightarrow> zp \<noteq> 0 \<Longrightarrow>
   \<exists>z. map_of (zones h') zp = Some z \<and> msgpack_zone_is_empty h' z = Inr True"
  by (auto simp: msgpack_zone_new_def init_chunk_list_def msgpack_zone_is_empty_def
      init_finalizer_array_def load_chunk_def
      split: if_splits sum.splits option.splits dest!: alloc_chunk_header)

lemma not_empty_after_malloc:
  assumes ld: "load_chunk h (head (chunk_list z)) = Inr ck"
    and inv: "next' ck = 0 \<longrightarrow> free (chunk_list z) \<le> chunk_size z"
    and n: "0 < n"
    and ok: "msgpack_zone_malloc h m z n = Inr (p, h', z')"
  shows "msgpack_zone_is_empty h' z' = Inr False"
proof (cases "n \<le> free (chunk_list z)")
  case True
  with ok have h': "h' = h"
    and z': "z' = z\<lparr>chunk_list := (chunk_list z)\<lparr>free := free (chunk_list z) - n,
        ptr := (fst (ptr (chunk_list z)), snd (ptr (chunk_list z)) + unat n)\<rparr>\<rparr>"
    by (auto simp: msgpack_zone_malloc_def Let_def)
  from n have "0 < unat n"
    by (simp add: word_less_nat_alt)
  with True have "free (chunk_list z) - n < free (chunk_list z)"
    by (simp add: word_less_nat_alt word_le_nat_alt unat_sub)
  with inv have "next' ck = 0 \<longrightarrow> free (chunk_list z) - n \<noteq> chunk_size z"
    by auto
  with ld show ?thesis
    by (auto simp: h' z' msgpack_zone_is_empty_def Let_def)
next
  case False
  with ok have e: "msgpack_zone_malloc_expand h m z n = Inr (p, h', z')"
    by (simp add: msgpack_zone_malloc_def Let_def)
  from ld have "head (chunk_list z) \<noteq> 0"
    by (auto simp: load_chunk_def split: if_splits)
  with e show ?thesis
    by (auto simp: msgpack_zone_malloc_expand_def Let_def msgpack_zone_is_empty_def load_chunk_def
        split: option.splits sum.splits dest!: alloc_chunk_header)
qed

lemma push_keeps_chunks:
  "msgpack_zone_push_finalizer h r z f d = Inr (b, h', z') \<Longrightarrow>
   chunks h' = chunks h \<and> chunk_list z' = chunk_list z \<and> chunk_size z' = chunk_size z"
  by (auto simp: msgpack_zone_push_finalizer_def msgpack_zone_push_finalizer_expand_def Let_def
      store_finalizer_def realloc_array_def split: sum.splits if_splits option.splits)

lemma not_empty_after_push:
  assumes ld: "load_chunk h (head (chunk_list z)) = Inr ck"
    and hf: "holds_finalizers h (finalizer_array z) es"
    and ok: "msgpack_zone_push_finalizer h r z f d = Inr (True, h', z')"
  shows "msgpack_zone_is_empty h' z' = Inr False"
proof -
  from push_registers [OF hf ok] have "tail (finalizer_array z') \<noteq> array (finalizer_array z')"
    by (auto simp: holds_finalizers_def prod_eq_iff)
  moreover from push_keeps_chunks [OF ok] ld
  have "load_chunk h' (head (chunk_list z')) = Inr ck"
    by (auto simp: load_chunk_def split: if_splits)
  ultimately show ?thesis
    by (simp add: msgpack_zone_is_empty_def Let_def)
qed

lemma clear_single_chunk:
  assumes ld: "load_chunk h (head (chunk_list z)) = Inr ck" and one: "next' ck = 0"
    and hf: "holds_finalizers h (finalizer_array z) es"
  shows "msgpack_zone_clear h z =
      (rev es,
       Inr (h\<lparr>chunks := AList.update (head (chunk_list z)) ck (chunks h)\<rparr>,
            z\<lparr>chunk_list := \<lparr>free = chunk_size z,
                             ptr = (head (chunk_list z), unat sizeof_chunk),
                             head = head (chunk_list z)\<rparr>,
              finalizer_array := (finalizer_array z)\<lparr>tail := array (finalizer_array z)\<rparr>\<rparr>))"
proof -
  have same: "ck\<lparr>next' := 0\<rparr> = ck"
    using one by simp
  from ld one show ?thesis
    by (simp add: msgpack_zone_clear_def clear_finalizer_array_def
        call_finalizer_array_registered [OF hf] clear_chunk_list_def store_next_def same)
qed

lemma empty_after_clear:
  assumes ld: "load_chunk h (head (chunk_list z)) = Inr ck" and one: "next' ck = 0"
    and hf: "holds_finalizers h (finalizer_array z) es"
  shows "\<exists>h' z'. msgpack_zone_clear h z = (rev es, Inr (h', z'))
           \<and> msgpack_zone_is_empty h' z' = Inr True"
proof -
  from ld have "head (chunk_list z) \<noteq> 0" "map_of (chunks h) (head (chunk_list z)) = Some ck"
    by (auto simp: load_chunk_def split: if_splits option.splits)
  with one show ?thesis
    unfolding clear_single_chunk [OF ld one hf]
    by (simp add: msgpack_zone_is_empty_def Let_def load_chunk_def AList.update_conv')
qed

text \<open>
  A head chunk with no successor has at most \<open>chunk_size\<close> bytes free: so it is after
  \<^verbatim>\<open>msgpack_zone_init\<close>, and allocations and registrations keep it so.
\<close>

lemma free_bound_after_init:
  "msgpack_zone_init h m cs = Inr (Some (h', z)) \<Longrightarrow>
   \<exists>ck. load_chunk h' (head (chunk_list z)) = Inr ck
      \<and> (next' ck = 0 \<longrightarrow> free (chunk_list z) \<le> chunk_size z)"
  by (auto simp: msgpack_zone_init_def init_chunk_list_def load_chunk_def
      split: if_splits sum.splits option.splits dest!: alloc_chunk_header)

lemma free_bound_after_malloc:
  assumes ld: "load_chunk h (head (chunk_list z)) = Inr ck"
    and inv: "next' ck = 0 \<longrightarrow> free (chunk_list z) \<le> chunk_size z"
    and ok: "msgpack_zone_malloc h m z n = Inr (p, h', z')"
  shows "\<exists>ck'. load_chunk h' (head (chunk_list z')) = Inr ck'
      \<and> (next' ck' = 0 \<longrightarrow> free (chunk_list z') \<le> chunk_size z')"
proof (cases "n \<le> free (chunk_list z)")
  case True
  with ok have h': "h' = h"
    and z': "z' = z\<lparr>chunk_list := (chunk_list z)\<lparr>free := free (chunk_list z) - n,
        ptr := (fst (ptr (chunk_list z)), snd (ptr (chunk_list z)) + unat n)\<rparr>\<rparr>"
    by (auto simp: msgpack_zone_malloc_def Let_def)
  from True have "free (chunk_list z) - n \<le> free (chunk_list z)"
    by (simp add: word_le_nat_alt unat_sub)
  with inv ld show ?thesis
    by (auto simp: h' z')
next
  case False
  with ok have e: "msgpack_zone_malloc_expand h m z n = Inr (p, h', z')"
    by (simp add: msgpack_zone_malloc_def Let_def)
  from ld have "head (chunk_list z) \<noteq> 0"
    by (auto simp: load_chunk_def split: if_splits)
  with e show ?thesis
    by (auto simp: msgpack_zone_malloc_expand_def Let_def load_chunk_def
        split: option.splits sum.splits dest!: alloc_chunk_header)
qed

lemma free_bound_after_push:
  assumes ld: "load_chunk h (head (chunk_list z)) = Inr ck"
    and inv: "next' ck = 0 \<longrightarrow> free (chunk_list z) \<le> chunk_size z"
    and ok: "msgpack_zone_push_finalizer h r z f d = Inr (b, h', z')"
  shows "load_chunk h' (head (chunk_list z')) = Inr ck
      \<and> (next' ck = 0 \<longrightarrow> free (chunk_list z') \<le> chunk_size z')"
  using push_keeps_chunks [OF ok] ld inv
  by (auto simp: load_chunk_def split: if_splits)

text \<open>
  C6, as amended. \<^verbatim>\<open>msgpack_zone_is_empty\<close> returns true on the zone that
  \<^verbatim>\<open>msgpack_zone_init\<close> or \<^verbatim>\<open>msgpack_zone_new\<close> has made; false after a successful
  allocation of at least one byte, on a zone whose head chunk has a successor or has
  at most \<open>chunk_size\<close> bytes free; false after a successful registration of a finalizer;
  true after \<^verbatim>\<open>msgpack_zone_clear\<close> on a zone of a single chunk; and it returns true
  exactly when \<open>free = chunk_size\<close>, the head chunk has no successor and \<open>tail = array\<close>.
\<close>

theorem is_empty_tracks_use:
  "(msgpack_zone_init h0 m0 cs = Inr (Some (h1, z1)) \<longrightarrow> msgpack_zone_is_empty h1 z1 = Inr True)
   \<and> (msgpack_zone_new h0 mz mc cs = Inr (zp, h2) \<and> zp \<noteq> 0 \<longrightarrow>
        (\<exists>z2. map_of (zones h2) zp = Some z2 \<and> msgpack_zone_is_empty h2 z2 = Inr True))
   \<and> (load_chunk h (head (chunk_list z)) = Inr ck
        \<and> (next' ck = 0 \<longrightarrow> free (chunk_list z) \<le> chunk_size z)
        \<and> 0 < n \<and> msgpack_zone_malloc h m z n = Inr (p, h3, z3) \<longrightarrow>
        msgpack_zone_is_empty h3 z3 = Inr False)
   \<and> (load_chunk h (head (chunk_list z)) = Inr ck
        \<and> holds_finalizers h (finalizer_array z) es
        \<and> msgpack_zone_push_finalizer h r z f d = Inr (True, h4, z4) \<longrightarrow>
        msgpack_zone_is_empty h4 z4 = Inr False)
   \<and> (load_chunk h (head (chunk_list z)) = Inr ck \<and> next' ck = 0
        \<and> holds_finalizers h (finalizer_array z) es \<longrightarrow>
        (\<exists>h5 z5. msgpack_zone_clear h z = (rev es, Inr (h5, z5))
           \<and> msgpack_zone_is_empty h5 z5 = Inr True))
   \<and> (msgpack_zone_is_empty h z = Inr True \<longleftrightarrow>
        free (chunk_list z) = chunk_size z
        \<and> (\<exists>c. load_chunk h (head (chunk_list z)) = Inr c \<and> next' c = 0)
        \<and> tail (finalizer_array z) = array (finalizer_array z))"
proof (intro conjI impI)
  assume "msgpack_zone_init h0 m0 cs = Inr (Some (h1, z1))"
  then show "msgpack_zone_is_empty h1 z1 = Inr True"
    by (rule is_empty_after_init)
next
  assume "msgpack_zone_new h0 mz mc cs = Inr (zp, h2) \<and> zp \<noteq> 0"
  then show "\<exists>z2. map_of (zones h2) zp = Some z2 \<and> msgpack_zone_is_empty h2 z2 = Inr True"
    by (auto intro: is_empty_after_new)
next
  assume "load_chunk h (head (chunk_list z)) = Inr ck
        \<and> (next' ck = 0 \<longrightarrow> free (chunk_list z) \<le> chunk_size z)
        \<and> 0 < n \<and> msgpack_zone_malloc h m z n = Inr (p, h3, z3)"
  then have a: "load_chunk h (head (chunk_list z)) = Inr ck"
    "next' ck = 0 \<longrightarrow> free (chunk_list z) \<le> chunk_size z" "0 < n"
    "msgpack_zone_malloc h m z n = Inr (p, h3, z3)"
    by simp_all
  show "msgpack_zone_is_empty h3 z3 = Inr False"
    by (rule not_empty_after_malloc [OF a])
next
  assume "load_chunk h (head (chunk_list z)) = Inr ck
        \<and> holds_finalizers h (finalizer_array z) es
        \<and> msgpack_zone_push_finalizer h r z f d = Inr (True, h4, z4)"
  then have a: "load_chunk h (head (chunk_list z)) = Inr ck"
    "holds_finalizers h (finalizer_array z) es"
    "msgpack_zone_push_finalizer h r z f d = Inr (True, h4, z4)"
    by simp_all
  show "msgpack_zone_is_empty h4 z4 = Inr False"
    by (rule not_empty_after_push [OF a])
next
  assume "load_chunk h (head (chunk_list z)) = Inr ck \<and> next' ck = 0
        \<and> holds_finalizers h (finalizer_array z) es"
  then have a: "load_chunk h (head (chunk_list z)) = Inr ck" "next' ck = 0"
    "holds_finalizers h (finalizer_array z) es"
    by simp_all
  show "\<exists>h5 z5. msgpack_zone_clear h z = (rev es, Inr (h5, z5))
           \<and> msgpack_zone_is_empty h5 z5 = Inr True"
    by (rule empty_after_clear [OF a])
next
  show "msgpack_zone_is_empty h z = Inr True \<longleftrightarrow>
        free (chunk_list z) = chunk_size z
        \<and> (\<exists>c. load_chunk h (head (chunk_list z)) = Inr c \<and> next' c = 0)
        \<and> tail (finalizer_array z) = array (finalizer_array z)"
    by (rule is_empty_iff)
qed

text \<open>
  The theorem at the zone of one chunk, fresh and with one finalizer registered: an
  allocation of 40 bytes, a second registration, and a clear.
\<close>

theorem is_empty_tracks_use_witness:
  "msgpack_zone_init empty_heap 1 64 = Inr (Some (heap_one_chunk, zone_one_chunk))
   \<and> msgpack_zone_is_empty heap_one_chunk zone_one_chunk = Inr True
   \<and> msgpack_zone_new empty_heap 5 1 64
       = Inr (5, heap_one_chunk\<lparr>zones := [(5, zone_one_chunk)]\<rparr>)
   \<and> msgpack_zone_is_empty (heap_one_chunk\<lparr>zones := [(5, zone_one_chunk)]\<rparr>) zone_one_chunk
       = Inr True
   \<and> load_chunk heap_one_finalizer (head (chunk_list zone_one_finalizer))
       = Inr \<lparr>next' = 0, capacity = 64\<rparr>
   \<and> free (chunk_list zone_one_finalizer) \<le> chunk_size zone_one_finalizer
   \<and> msgpack_zone_malloc heap_one_finalizer 2 zone_one_finalizer 40
       = Inr ((1, 8), heap_one_finalizer,
              zone_one_finalizer\<lparr>chunk_list := \<lparr>free = 24, ptr = (1, 48), head = 1\<rparr>\<rparr>)
   \<and> msgpack_zone_is_empty heap_one_finalizer
        (zone_one_finalizer\<lparr>chunk_list := \<lparr>free = 24, ptr = (1, 48), head = 1\<rparr>\<rparr>) = Inr False
   \<and> holds_finalizers heap_one_finalizer (finalizer_array zone_one_finalizer)
        [\<lparr>func = 7, data = 9\<rparr>]
   \<and> msgpack_zone_push_finalizer heap_one_finalizer 0 zone_one_finalizer 7 10
       = Inr (True,
              heap_one_finalizer\<lparr>arrays :=
                [(3, [Some \<lparr>func = 7, data = 9\<rparr>, Some \<lparr>func = 7, data = 10\<rparr>, None, None])]\<rparr>,
              zone_one_finalizer\<lparr>finalizer_array :=
                \<lparr>tail = (3, 2), end' = (3, 4), array = (3, 0)\<rparr>\<rparr>)
   \<and> msgpack_zone_is_empty
        (heap_one_finalizer\<lparr>arrays :=
           [(3, [Some \<lparr>func = 7, data = 9\<rparr>, Some \<lparr>func = 7, data = 10\<rparr>, None, None])]\<rparr>)
        (zone_one_finalizer\<lparr>finalizer_array :=
           \<lparr>tail = (3, 2), end' = (3, 4), array = (3, 0)\<rparr>\<rparr>) = Inr False
   \<and> (\<exists>h5 z5. msgpack_zone_clear heap_one_finalizer zone_one_finalizer
                  = (rev [\<lparr>func = 7, data = 9\<rparr>], Inr (h5, z5))
         \<and> msgpack_zone_is_empty h5 z5 = Inr True)
   \<and> msgpack_zone_is_empty heap_one_finalizer zone_one_finalizer = Inr False"
proof -
  have i: "msgpack_zone_init empty_heap 1 64 = Inr (Some (heap_one_chunk, zone_one_chunk))"
    by (simp add: zone_defs run_defs)
  have nw: "msgpack_zone_new empty_heap 5 1 64
       = Inr (5, heap_one_chunk\<lparr>zones := [(5, zone_one_chunk)]\<rparr>) \<and> (5 :: nat) \<noteq> 0"
    by (simp add: zone_defs run_defs)
  have ld: "load_chunk heap_one_finalizer (head (chunk_list zone_one_finalizer))
       = Inr \<lparr>next' = 0, capacity = 64\<rparr>"
    by (simp add: zone_defs run_defs)
  have le: "free (chunk_list zone_one_finalizer) \<le> chunk_size zone_one_finalizer"
    by (simp add: zone_defs)
  have ml: "msgpack_zone_malloc heap_one_finalizer 2 zone_one_finalizer 40
       = Inr ((1, 8), heap_one_finalizer,
              zone_one_finalizer\<lparr>chunk_list := \<lparr>free = 24, ptr = (1, 48), head = 1\<rparr>\<rparr>)"
    by (simp add: zone_defs run_defs)
  have hf: "holds_finalizers heap_one_finalizer (finalizer_array zone_one_finalizer)
        [\<lparr>func = 7, data = 9\<rparr>]"
    by (simp add: zone_defs run_defs)
  have pu: "msgpack_zone_push_finalizer heap_one_finalizer 0 zone_one_finalizer 7 10
       = Inr (True,
              heap_one_finalizer\<lparr>arrays :=
                [(3, [Some \<lparr>func = 7, data = 9\<rparr>, Some \<lparr>func = 7, data = 10\<rparr>, None, None])]\<rparr>,
              zone_one_finalizer\<lparr>finalizer_array :=
                \<lparr>tail = (3, 2), end' = (3, 4), array = (3, 0)\<rparr>\<rparr>)"
    by (simp add: zone_defs run_defs)
  have p40: "(0 :: size_t) < 40" by simp
  note t = is_empty_tracks_use [where ?h0.0 = empty_heap and ?m0.0 = 1 and cs = 64
      and ?h1.0 = heap_one_chunk and ?z1.0 = zone_one_chunk
      and mz = 5 and mc = 1 and zp = 5 and ?h2.0 = "heap_one_chunk\<lparr>zones := [(5, zone_one_chunk)]\<rparr>"
      and h = heap_one_finalizer and z = zone_one_finalizer
      and ck = "\<lparr>next' = 0, capacity = 64\<rparr>" and n = 40 and m = 2 and p = "(1, 8)"
      and ?h3.0 = heap_one_finalizer
      and ?z3.0 = "zone_one_finalizer\<lparr>chunk_list := \<lparr>free = 24, ptr = (1, 48), head = 1\<rparr>\<rparr>"
      and es = "[\<lparr>func = 7, data = 9\<rparr>]" and r = 0 and f = 7 and d = 10
      and ?h4.0 = "heap_one_finalizer\<lparr>arrays :=
                [(3, [Some \<lparr>func = 7, data = 9\<rparr>, Some \<lparr>func = 7, data = 10\<rparr>, None, None])]\<rparr>"
      and ?z4.0 = "zone_one_finalizer\<lparr>finalizer_array :=
                \<lparr>tail = (3, 2), end' = (3, 4), array = (3, 0)\<rparr>\<rparr>"]
  have e: "msgpack_zone_is_empty heap_one_finalizer zone_one_finalizer = Inr False"
    by (simp add: zone_defs run_defs)
  have z: "map_of (zones (heap_one_chunk\<lparr>zones := [(5, zone_one_chunk)]\<rparr>)) 5 = Some zone_one_chunk"
    by simp
  from t i nw ld le ml hf pu p40 e z show ?thesis
    by (simp del: rev.simps)
qed

text \<open>
  C6 as it stands fails after an allocation of 0 bytes. It succeeds on the fast path and
  takes nothing from \<open>free\<close>: the zone is as it was, and still empty.
\<close>

theorem is_empty_counterexample:
  "msgpack_zone_init empty_heap 1 64 = Inr (Some (heap_one_chunk, zone_one_chunk))
   \<and> msgpack_zone_malloc heap_one_chunk 2 zone_one_chunk 0
     = Inr ((1, 8), heap_one_chunk, zone_one_chunk)
   \<and> msgpack_zone_is_empty heap_one_chunk zone_one_chunk = Inr True"
  by (simp add: zone_defs run_defs)

section \<open>Clearing twice\<close>

text \<open>
  On a zone of a single chunk the second of two calls of \<^verbatim>\<open>msgpack_zone_clear\<close> in a row
  calls no finalizer and leaves the heap and the zone as the first call left them.
\<close>

lemma clear_twice_single_chunk:
  assumes ld: "load_chunk h (head (chunk_list z)) = Inr ck" and one: "next' ck = 0"
    and hf: "holds_finalizers h (finalizer_array z) es"
  shows "\<exists>h' z'. msgpack_zone_clear h z = (rev es, Inr (h', z'))
           \<and> msgpack_zone_clear h' z' = ([], Inr (h', z'))"
proof -
  let ?h = "h\<lparr>chunks := AList.update (head (chunk_list z)) ck (chunks h)\<rparr>"
  let ?z = "z\<lparr>chunk_list := \<lparr>free = chunk_size z,
                             ptr = (head (chunk_list z), unat sizeof_chunk),
                             head = head (chunk_list z)\<rparr>,
              finalizer_array := (finalizer_array z)\<lparr>tail := array (finalizer_array z)\<rparr>\<rparr>"
  from ld have live: "head (chunk_list z) \<noteq> 0" "map_of (chunks h) (head (chunk_list z)) = Some ck"
    by (auto simp: load_chunk_def split: if_splits option.splits)
  then have ld': "load_chunk ?h (head (chunk_list ?z)) = Inr ck"
    by (simp add: load_chunk_def AList.update_conv')
  from hf have hf': "holds_finalizers ?h (finalizer_array ?z) []"
    by (auto simp: holds_finalizers_def prod_eq_iff split: if_splits option.splits)
  have "msgpack_zone_clear ?h ?z = ([], Inr (?h, ?z))"
    unfolding clear_single_chunk [OF ld' one hf'] by simp
  with clear_single_chunk [OF ld one hf] show ?thesis
    by blast
qed

text \<open>
  On a zone of a single chunk, of \<open>chunk_size\<close> bytes as \<^verbatim>\<open>msgpack_zone_init\<close> makes it,
  the invariant of the chunk list holds after \<^verbatim>\<open>msgpack_zone_clear\<close>.
\<close>

lemma clear_single_chunk_inv:
  assumes ld: "load_chunk h (head (chunk_list z)) = Inr ck" and one: "next' ck = 0"
    and hf: "holds_finalizers h (finalizer_array z) es"
    and cap: "capacity ck = unat (chunk_size z)"
  shows "\<exists>h' z'. msgpack_zone_clear h z = (rev es, Inr (h', z'))
           \<and> chunk_list_inv h' (chunk_list z')"
proof -
  from ld have "head (chunk_list z) \<noteq> 0" "map_of (chunks h) (head (chunk_list z)) = Some ck"
    by (auto simp: load_chunk_def split: if_splits option.splits)
  with cap show ?thesis
    unfolding clear_single_chunk [OF ld one hf]
    by (simp add: chunk_list_inv_def load_chunk_def AList.update_conv')
qed

text \<open>
  C7. Two calls of \<^verbatim>\<open>clear\<close> in a row should leave the zone as the first call left it,
  and empty. On the zone of two chunks with one finalizer registered the first call
  runs the finalizer and then writes into the head chunk that it has just released:
  it leaves no zone for the second call to keep.
\<close>

theorem clear_twice_use_after_free:
  "msgpack_zone_push_finalizer heap_two_chunks 3 zone_two_chunks 7 9
     = Inr (True, heap_two_chunks\<lparr>arrays := arrays heap_one_finalizer\<rparr>,
            zone_two_chunks\<lparr>finalizer_array := finalizer_array zone_one_finalizer\<rparr>)
   \<and> msgpack_zone_clear (heap_two_chunks\<lparr>arrays := arrays heap_one_finalizer\<rparr>)
        (zone_two_chunks\<lparr>finalizer_array := finalizer_array zone_one_finalizer\<rparr>)
     = ([\<lparr>func = 7, data = 9\<rparr>], Inl InvalidAccess)"
  by (simp add: zone_defs run_defs replicate_4)

end
